theory Spec2Isabelle
  imports Main "HOL-Library.Word"
begin

unbundle bit_operations_syntax

section \<open>Machine integers\<close>

text \<open>
  Go's \<open>int64\<close> is modelled as \<open>int\<close> with the two's-complement wrap-around written
  out: \<open>wrap64\<close> brings a mathematical result back into \<open>[-2^63, 2^63)\<close>. Bitwise
  \<open>&\<close> and \<open>|\<close> on \<open>int64\<close> agree with \<open>AND\<close> and \<open>OR\<close> on \<open>int\<close> (two's
  complement with infinite sign extension) and \<open>>>\<close> on a signed value is the
  arithmetic shift \<open>drop_bit\<close>. Go's \<open>uint64\<close> is \<open>nat\<close> with \<open>mod 2 ^ 64\<close>
  written out, \<open>uint16\<close> and \<open>byte\<close> are \<open>nat\<close>.
\<close>

definition wrap64 :: "int \<Rightarrow> int" where
  "wrap64 x = signed_take_bit 63 x"

definition shl64 :: "int \<Rightarrow> nat \<Rightarrow> int" where
  "shl64 x k = wrap64 (push_bit k x)"

definition add64 :: "int \<Rightarrow> int \<Rightarrow> int" where
  "add64 a b = wrap64 (a + b)"

definition sub64 :: "int \<Rightarrow> int \<Rightarrow> int" where
  "sub64 a b = wrap64 (a - b)"

definition MaxInt64 :: nat where
  "MaxInt64 = 2 ^ 63 - 1"

definition MaxUint64 :: nat where
  "MaxUint64 = 2 ^ 64 - 1"

text \<open>The conversion \<open>uint64(id)\<close> of an \<open>int64\<close>.\<close>

definition uint64_of :: "int \<Rightarrow> nat" where
  "uint64_of i = nat (i mod 2 ^ 64)"

section \<open>Constants of the bit layout (arbiterid.go, lines 16-51)\<close>

definition Epoch :: int where
  "Epoch = 1735718400000"

definition TypeBits :: nat where "TypeBits = 10"
definition TimestampBits :: nat where "TimestampBits = 41"
definition NodeBits :: nat where "NodeBits = 2"
definition SeqBits :: nat where "SeqBits = 10"

definition TypeMax :: nat where
  "TypeMax = push_bit TypeBits 1 - 1"

definition TimestampMax :: int where
  "TimestampMax = push_bit TimestampBits 1 - 1"

definition NodeMax :: int where
  "NodeMax = push_bit NodeBits 1 - 1"

definition SeqMax :: int where
  "SeqMax = push_bit SeqBits 1 - 1"

definition SeqShift :: nat where "SeqShift = 0"
definition NodeShift :: nat where "NodeShift = SeqBits"
definition TimeShift :: nat where "TimeShift = NodeShift + NodeBits"
definition TypeShift :: nat where "TypeShift = TimeShift + TimestampBits"

definition SeqMask :: int where
  "SeqMask = push_bit SeqShift SeqMax"

definition NodeMask :: int where
  "NodeMask = push_bit NodeShift NodeMax"

definition TimestampMask :: int where
  "TimestampMask = push_bit TimeShift TimestampMax"

definition TypeMask :: int where
  "TypeMask = push_bit TypeShift (int TypeMax)"

definition maxRolloverWaitAttempts :: nat where
  "maxRolloverWaitAttempts = 2000"

section \<open>Errors\<close>

text \<open>
  The sentinel errors of the package, and one constructor for each error the package
  builds without a sentinel (the timestamp overflow of \<open>generateInternal\<close>, the wrapped
  errors of \<open>strconv\<close> and \<open>encoding/base64\<close>, the overflow of \<open>ParseBase64\<close>).
  \<open>ErrClockNotAdvancing\<close> is returned with two different messages: the stuck clock of
  \<open>Generate\<close> and the exhausted sequence of \<open>GenerateWithTimestamp\<close>.
\<close>

datatype clock_reason = ClockStuck | SequenceExhausted

datatype error =
    ErrInvalidNodeID
  | ErrInvalIDType
  | ErrInvalidBase58
  | ErrInvalidBase32
  | ErrMonotonicityViolation
  | ErrClockNotAdvancing clock_reason
  | ErrBase64InvalidLength
  | ErrTimestampOverflow
  | ErrSyntax
  | ErrRange
  | ErrBase64Corrupt
  | ErrBase64Overflow

section \<open>The generator (arbiterid.go, lines 97-298)\<close>

text \<open>
  The struct \<open>Node\<close>. The mutex is the exclusive-ownership boundary: each operation
  below is one critical section, a function from the state before to the result and the
  state after. The field \<open>epoch\<close> is assigned once, by \<open>NewNode\<close> (lines 135-139),
  and always holds the instant \<open>epochTime\<close> defined below, so the model reads that
  constant where the code reads \<open>n.epoch\<close>.
\<close>

record Node =
  lastID :: int
  node :: int
  time :: int
  seq :: int
  clockWarningCount :: int
  strictMonotonicityChecks :: bool
  quietMode :: bool

datatype NodeOption = WithStrictMonotonicityCheck bool | WithQuietMode bool

fun applyOption :: "NodeOption \<Rightarrow> Node \<Rightarrow> Node" where
  "applyOption (WithStrictMonotonicityCheck enable) n = n\<lparr>strictMonotonicityChecks := enable\<rparr>"
| "applyOption (WithQuietMode enable) n = n\<lparr>quietMode := enable\<rparr>"

definition NewNode :: "int \<Rightarrow> NodeOption list \<Rightarrow> error + Node" where
  "NewNode nodeID options =
     (if nodeID < 0 \<or> nodeID > NodeMax then Inl ErrInvalidNodeID
      else Inr (fold applyOption options
             \<lparr>lastID = 0, node = nodeID, time = 0, seq = 0, clockWarningCount = 0,
              strictMonotonicityChecks = True, quietMode = False\<rparr>))"

text \<open>
  The packing expression of \<open>generateInternal\<close> (lines 262-267); the test
  \<open>TestID_Components\<close> builds identifiers with the same expression.
\<close>

definition packID :: "nat \<Rightarrow> int \<Rightarrow> int \<Rightarrow> int \<Rightarrow> int" where
  "packID idType now nodeID sq =
     shl64 (int idType) TypeShift OR shl64 now TimeShift OR shl64 nodeID NodeShift OR sq"

definition generateInternal :: "Node \<Rightarrow> nat \<Rightarrow> int \<Rightarrow> (error + int) \<times> Node" where
  "generateInternal n idType now =
     (let n1 = n\<lparr>time := now\<rparr> in
      if now > TimestampMax then (Inl ErrTimestampOverflow, n1)
      else
        let newID = packID idType now (node n1) (seq n1) in
        if strictMonotonicityChecks n1 \<and> newID \<le> lastID n1
        then (Inl ErrMonotonicityViolation, n1)
        else (Inr newID, n1\<lparr>lastID := newID\<rparr>))"

text \<open>
  Instants and durations of package \<open>time\<close>, as \<open>GenerateWithTimestamp\<close> uses them
  (line 230). An instant (\<open>time.Time\<close>) is modelled by its number of nanoseconds since
  the Unix epoch, an unbounded integer; a \<open>Duration\<close> is an int64 count of nanoseconds.
  \<open>UTC\<close> changes the location of an instant, not the instant. \<open>Sub\<close> is the
  difference of two instants, replaced by the smallest or the largest duration when it
  does not fit. \<open>Milliseconds\<close> is Go's integer division by 1000000, which truncates
  toward zero. \<open>Unix sec nsec\<close> is the instant \<open>sec\<close> seconds and \<open>nsec\<close> nanoseconds
  after the Unix epoch.
\<close>

definition minDuration :: int where
  "minDuration = - (2 ^ 63)"

definition maxDuration :: int where
  "maxDuration = 2 ^ 63 - 1"

definition UTC :: "int \<Rightarrow> int" where
  "UTC t = t"

definition Sub :: "int \<Rightarrow> int \<Rightarrow> int" where
  "Sub t u =
     (let d = t - u in
      if d < minDuration then minDuration
      else if maxDuration < d then maxDuration
      else d)"

definition Milliseconds :: "int \<Rightarrow> int" where
  "Milliseconds d = (if d < 0 then - ((- d) div 1000000) else d div 1000000)"

definition Unix :: "int \<Rightarrow> int \<Rightarrow> int" where
  "Unix sec nsec = sec * 1000000000 + nsec"

text \<open>The local \<open>epochTime\<close> of \<open>NewNode\<close> (line 135), stored in the field \<open>epoch\<close>.\<close>

definition epochTime :: int where
  "epochTime = UTC (Unix (Epoch div 1000) ((Epoch mod 1000) * 1000000))"

text \<open>
  \<open>GenerateWithTimestamp\<close> (lines 222-245); \<open>timestamp\<close> is the instant the caller
  supplies.
\<close>

definition GenerateWithTimestamp :: "Node \<Rightarrow> nat \<Rightarrow> int \<Rightarrow> (error + int) \<times> Node" where
  "GenerateWithTimestamp n idType timestamp =
     (if idType > TypeMax then (Inl ErrInvalIDType, n)
      else
        let now = Milliseconds (Sub (UTC timestamp) epochTime) in
        if now = time n then
          (let n1 = n\<lparr>seq := add64 (seq n) 1 AND SeqMax\<rparr> in
           if seq n1 = 0 then (Inl (ErrClockNotAdvancing SequenceExhausted), n1)
           else generateInternal n1 idType now)
        else generateInternal (n\<lparr>seq := 0\<rparr>) idType now)"

text \<open>
  The wait loop of \<open>Generate\<close> (lines 192-210). \<open>fresh k\<close> is the reading of the wall
  clock taken in the \<open>k\<close>-th round of the loop, in milliseconds since the epoch. The
  result is the error of the exhausted attempt budget or the value of \<open>now\<close> on exit.
\<close>

function waitLoop :: "int \<Rightarrow> (nat \<Rightarrow> int) \<Rightarrow> int \<Rightarrow> nat \<Rightarrow> error + int" where
  "waitLoop originalTime fresh now attempts =
     (if now \<le> originalTime then
        (let attempts' = attempts + 1 in
         if attempts' > maxRolloverWaitAttempts then Inl (ErrClockNotAdvancing ClockStuck)
         else
           let freshTime = fresh attempts' in
           if freshTime > originalTime then Inr freshTime
           else waitLoop originalTime fresh freshTime attempts')
      else Inr now)"
  by pat_completeness auto
termination
  by (relation "measure (\<lambda>(originalTime, fresh, now, attempts). maxRolloverWaitAttempts - attempts)")
     (auto simp: maxRolloverWaitAttempts_def)

declare waitLoop.simps [simp del]

text \<open>
  \<open>Generate\<close>; \<open>now0\<close> is the first reading of the wall clock (line 166) and \<open>fresh\<close>
  the readings of the wait loop, each as the value of
  \<open>time.Now().UTC().Sub(n.epoch).Milliseconds()\<close>: the clock is an input, and its
  readings are whole milliseconds since the epoch.
\<close>

definition Generate :: "Node \<Rightarrow> nat \<Rightarrow> int \<Rightarrow> (nat \<Rightarrow> int) \<Rightarrow> (error + int) \<times> Node" where
  "Generate n idType now0 fresh =
     (if idType > TypeMax then (Inl ErrInvalIDType, n)
      else
        let nA = (if now0 < time n \<and> now0 < sub64 (time n) 1
                  then n\<lparr>clockWarningCount := add64 (clockWarningCount n) 1\<rparr> else n);
            now1 = (if now0 < time n then time n else now0)
        in
        if now1 = time nA then
          (let nB = nA\<lparr>seq := add64 (seq nA) 1 AND SeqMax\<rparr> in
           if seq nB = 0 then
             (case waitLoop (time nB) fresh now1 0 of
                Inl e \<Rightarrow> (Inl e, nB)
              | Inr now2 \<Rightarrow> generateInternal nB idType now2)
           else generateInternal nB idType now1)
        else generateInternal (nA\<lparr>seq := 0\<rparr>) idType now1)"

definition LastID :: "Node \<Rightarrow> int" where
  "LastID n = lastID n"

section \<open>Field extraction (arbiterid.go, lines 310-347)\<close>

definition Type :: "int \<Rightarrow> int" where
  "Type i = drop_bit TypeShift (i AND TypeMask)"

text \<open>The local \<open>timestampMillisNodeEpoch\<close> of \<open>Components\<close> (line 313).\<close>

definition timestampMillisNodeEpoch :: "int \<Rightarrow> int" where
  "timestampMillisNodeEpoch i = drop_bit TimeShift (i AND TimestampMask)"

definition Time :: "int \<Rightarrow> int" where
  "Time i = add64 (drop_bit TimeShift (i AND TimestampMask)) Epoch"

definition Node_of :: "int \<Rightarrow> int" where
  "Node_of i = drop_bit NodeShift (i AND NodeMask)"

definition Seq :: "int \<Rightarrow> int" where
  "Seq i = i AND SeqMask"

text \<open>\<open>IDType(id.Type())\<close> converts the \<open>int64\<close> to \<open>uint16\<close>.\<close>

definition Components :: "int \<Rightarrow> nat \<times> int \<times> int \<times> int" where
  "Components i =
     (nat (Type i mod 2 ^ 16), add64 (timestampMillisNodeEpoch i) Epoch, Node_of i, Seq i)"

section \<open>Runs of a generator\<close>

text \<open>
  A call of one of the two entry points: \<open>Generate\<close> with the readings of the clock it
  will see, \<open>GenerateWithTimestamp\<close> with the instant the caller supplies. Then the
  results of a sequence of calls made one after the other on the same \<open>Node\<close>. The
  mutex makes every interleaving of concurrent callers such a sequence.
\<close>

datatype call =
    CallGenerate nat int "nat \<Rightarrow> int"
  | CallGenerateWithTimestamp nat int

fun step :: "Node \<Rightarrow> call \<Rightarrow> (error + int) \<times> Node" where
  "step n (CallGenerate idType now0 fresh) = Generate n idType now0 fresh"
| "step n (CallGenerateWithTimestamp idType timestamp) = GenerateWithTimestamp n idType timestamp"

fun run :: "Node \<Rightarrow> call list \<Rightarrow> (error + int) list \<times> Node" where
  "run n [] = ([], n)"
| "run n (c # cs) =
     (let (r, n') = step n c; (rs, n'') = run n' cs in (r # rs, n''))"

fun successes :: "(error + int) list \<Rightarrow> int list" where
  "successes [] = []"
| "successes (Inr i # rs) = i # successes rs"
| "successes (Inl e # rs) = successes rs"

text \<open>A clock that shows the same millisecond at every reading.\<close>

definition constClock :: "int \<Rightarrow> nat \<Rightarrow> int" where
  "constClock t k = t"

text \<open>
  The states a generator reaches from its construction through calls of \<open>Generate\<close>
  none of which failed on a stuck clock.
\<close>

inductive reachable :: "Node \<Rightarrow> bool" where
  reachable_new: "NewNode nodeID options = Inr n \<Longrightarrow> reachable n"
| reachable_gen: "reachable n \<Longrightarrow> Generate n idType now0 fresh = (r, n')
     \<Longrightarrow> r \<noteq> Inl (ErrClockNotAdvancing ClockStuck) \<Longrightarrow> reachable n'"

text \<open>
  What every call leaves alone and what a successful call commits: the flags and the
  node identity never change, an error leaves \<open>lastID\<close> as it was, a success stores
  the returned identifier.
\<close>

definition step_ok :: "Node \<Rightarrow> error + int \<Rightarrow> Node \<Rightarrow> bool" where
  "step_ok n r n' \<longleftrightarrow>
     strictMonotonicityChecks n' = strictMonotonicityChecks n \<and> node n' = node n
     \<and> quietMode n' = quietMode n
     \<and> (\<forall>e. r = Inl e \<longrightarrow> lastID n' = lastID n)
     \<and> (\<forall>i. r = Inr i \<longrightarrow> lastID n' = i \<and> (strictMonotonicityChecks n \<longrightarrow> lastID n < i))"

text \<open>
  The state after a successful call: the last identifier is the packing of the recorded
  time and sequence. After a failed call the recorded time and sequence may be ahead of
  the last identifier.
\<close>

definition inv_Node :: "Node \<Rightarrow> bool" where
  "inv_Node n \<longleftrightarrow>
     0 \<le> node n \<and> node n \<le> NodeMax \<and> 0 \<le> seq n \<and> seq n \<le> SeqMax \<and> 0 \<le> time n
     \<and> (lastID n = 0
        \<or> (\<exists>c t q. c \<le> TypeMax \<and> 0 \<le> t \<and> t \<le> TimestampMax \<and> 0 \<le> q \<and> q \<le> SeqMax
             \<and> lastID n = packID c t (node n) q
             \<and> (t < time n \<or> (t = time n \<and> q \<le> seq n))))"

section \<open>Text codecs (arbiterid.go, lines 53-89 and 300-478)\<close>

subsection \<open>Base-32 and base-58\<close>

definition encodeBase32Map :: string where
  "encodeBase32Map = ''ybndrfg8ejkmcpqxot1uwisza345h769''"

definition encodeBase58Map :: string where
  "encodeBase58Map = ''123456789abcdefghijkmnopqrstuvwxyzABCDEFGHJKLMNPQRSTUVWXYZ''"

text \<open>
  The decoding tables of \<open>init()\<close>: every entry is first set to \<open>0xFF\<close>, then the entry
  of the \<open>i\<close>-th character of the alphabet is set to \<open>i\<close>.
\<close>

definition initDecodeMap :: "string \<Rightarrow> char \<Rightarrow> nat" where
  "initDecodeMap emap = fold (\<lambda>i m. m(emap ! i := i)) [0..<length emap] (\<lambda>c. 0xFF)"

definition decodeBase32Map :: "char \<Rightarrow> nat" where
  "decodeBase32Map = initDecodeMap encodeBase32Map"

definition decodeBase58Map :: "char \<Rightarrow> nat" where
  "decodeBase58Map = initDecodeMap encodeBase58Map"

text \<open>
  The loop of \<open>Base32\<close> and \<open>Base58\<close>, which differ in the alphabet and the base only:
  the digits are written into \<open>buf\<close> from index \<open>i\<close> downwards and the result is
  \<open>buf[i+1:]\<close>. A write outside the buffer is a run-time panic, the value \<open>None\<close>.
\<close>

function encodeLoop :: "string \<Rightarrow> nat \<Rightarrow> nat \<Rightarrow> string \<Rightarrow> int \<Rightarrow> string option" where
  "encodeLoop emap base n buf i =
     (if base < 2 then None
      else if n > 0 then
        (if i < 0 \<or> int (length buf) \<le> i then None
         else encodeLoop emap base (n div base) (buf[nat i := emap ! (n mod base)]) (i - 1))
      else Some (drop (nat (i + 1)) buf))"
  by pat_completeness auto
termination
  by (relation "measure (\<lambda>(emap, base, n, buf, i). n)") auto

declare encodeLoop.simps [simp del]

definition Base32 :: "int \<Rightarrow> string option" where
  "Base32 i =
     (if i = 0 then Some [encodeBase32Map ! 0]
      else encodeLoop encodeBase32Map 32 (uint64_of i) (replicate 13 (CHR 0x00)) 12)"

definition Base58 :: "int \<Rightarrow> string option" where
  "Base58 i =
     (if i = 0 then Some [encodeBase58Map ! 0]
      else encodeLoop encodeBase58Map 58 (uint64_of i) (replicate 11 (CHR 0x00)) 10)"

text \<open>
  The loop of \<open>ParseBase32\<close> and \<open>ParseBase58\<close> over the bytes of the string, with the
  table, the base and the sentinel error of each.
\<close>

fun decodeLoop :: "(char \<Rightarrow> nat) \<Rightarrow> nat \<Rightarrow> error \<Rightarrow> string \<Rightarrow> nat \<Rightarrow> error + nat" where
  "decodeLoop dmap base err [] val = Inr val"
| "decodeLoop dmap base err (c # cs) val =
     (let decodedByte = dmap c in
      if decodedByte = 0xFF then Inl err
      else if val > (MaxUint64 - decodedByte) div base then Inl err
      else decodeLoop dmap base err cs ((val * base + decodedByte) mod 2 ^ 64))"

definition ParseBase32 :: "string \<Rightarrow> error + int" where
  "ParseBase32 s =
     (if length s = 0 then Inl ErrInvalidBase32
      else if length s > 13 then Inl ErrInvalidBase32
      else case decodeLoop decodeBase32Map 32 ErrInvalidBase32 s 0 of
             Inl e \<Rightarrow> Inl e
           | Inr val \<Rightarrow> if val > MaxInt64 then Inl ErrInvalidBase32 else Inr (int val))"

definition ParseBase58 :: "string \<Rightarrow> error + int" where
  "ParseBase58 s =
     (if length s = 0 then Inl ErrInvalidBase58
      else if length s > 11 then Inl ErrInvalidBase58
      else case decodeLoop decodeBase58Map 58 ErrInvalidBase58 s 0 of
             Inl e \<Rightarrow> Inl e
           | Inr val \<Rightarrow> if val > MaxInt64 then Inl ErrInvalidBase58 else Inr (int val))"

subsection \<open>Decimal and binary: the functions of \<open>strconv\<close> and \<open>fmt\<close>\<close>

text \<open>
  \<open>String\<close>, \<open>ParseString\<close>, \<open>Base2\<close> and \<open>ParseBase2\<close> call
  \<open>strconv.FormatInt\<close>, \<open>strconv.ParseInt\<close> and \<open>fmt.Sprintf\<close> of the Go standard
  library, which is not part of the repository. They are modelled from the library's
  documentation and source, for the arguments the package passes: a base of 10 or 2
  given explicitly (so no base prefix and no underscores) and bit size 64.
\<close>

definition digitChars :: string where
  "digitChars = ''0123456789abcdefghijklmnopqrstuvwxyz''"

function formatBits :: "nat \<Rightarrow> nat \<Rightarrow> string" where
  "formatBits u base =
     (if base < 2 then []
      else if u < base then [digitChars ! u]
      else formatBits (u div base) base @ [digitChars ! (u mod base)])"
  by pat_completeness auto
termination
  by (relation "measure (\<lambda>(u, base). u)") auto

declare formatBits.simps [simp del]

definition FormatInt :: "int \<Rightarrow> nat \<Rightarrow> string" where
  "FormatInt i base =
     (if i < 0 then CHR ''-'' # formatBits (nat (- i)) base else formatBits (nat i) base)"

text \<open>The verb \<open>%063b\<close>: base 2, padded with zeros to width 63, the sign included.\<close>

definition padZeros :: "nat \<Rightarrow> string \<Rightarrow> string" where
  "padZeros w s = replicate (w - length s) (CHR ''0'') @ s"

definition Sprintf_063b :: "int \<Rightarrow> string" where
  "Sprintf_063b i =
     (if i < 0 then CHR ''-'' # padZeros 62 (formatBits (nat (- i)) 2)
      else padZeros 63 (formatBits (nat i) 2))"

text \<open>
  The digit of a byte in \<open>ParseUint\<close>: \<open>'0'..'9'\<close>, or a letter in either case
  (\<open>lower(c) = c | ('x' - 'X')\<close>); anything else is a syntax error.
\<close>

definition digitOf :: "char \<Rightarrow> nat option" where
  "digitOf ch =
     (let c = (of_char ch :: nat); l = c OR 32 in
      if 48 \<le> c \<and> c \<le> 57 then Some (c - 48)
      else if 97 \<le> l \<and> l \<le> 122 then Some (l - 97 + 10)
      else None)"

fun ParseUint_loop :: "nat \<Rightarrow> string \<Rightarrow> nat \<Rightarrow> error + nat" where
  "ParseUint_loop base [] n = Inr n"
| "ParseUint_loop base (ch # cs) n =
     (case digitOf ch of
        None \<Rightarrow> Inl ErrSyntax
      | Some d \<Rightarrow>
          if d \<ge> base then Inl ErrSyntax
          else if n \<ge> MaxUint64 div base + 1 then Inl ErrRange
          else
            let n' = (n * base) mod 2 ^ 64; n1 = (n' + d) mod 2 ^ 64 in
            if n1 < n' \<or> n1 > MaxUint64 then Inl ErrRange
            else ParseUint_loop base cs n1)"

definition ParseUint :: "string \<Rightarrow> nat \<Rightarrow> error + nat" where
  "ParseUint s base = (if s = [] then Inl ErrSyntax else ParseUint_loop base s 0)"

text \<open>
  \<open>ParseInt\<close> picks off a leading sign, parses the rest unsigned and checks the signed
  range; a range error of \<open>ParseUint\<close> stays a range error.
\<close>

definition ParseInt :: "string \<Rightarrow> nat \<Rightarrow> error + int" where
  "ParseInt s base =
     (if s = [] then Inl ErrSyntax
      else
        let neg = (hd s = CHR ''-'');
            s' = (if hd s = CHR ''+'' \<or> hd s = CHR ''-'' then tl s else s)
        in case ParseUint s' base of
             Inl e \<Rightarrow> Inl e
           | Inr un \<Rightarrow>
               if \<not> neg \<and> un \<ge> 2 ^ 63 then Inl ErrRange
               else if neg \<and> un > 2 ^ 63 then Inl ErrRange
               else Inr (if neg then - int un else int un))"

text \<open>The four functions of the package built on them.\<close>

definition String :: "int \<Rightarrow> string" where
  "String i = FormatInt i 10"

definition ParseString :: "string \<Rightarrow> error + int" where
  "ParseString s = (case ParseInt s 10 of Inl e \<Rightarrow> Inl e | Inr i \<Rightarrow> Inr i)"

definition Base2 :: "int \<Rightarrow> string" where
  "Base2 i = Sprintf_063b i"

definition ParseBase2 :: "string \<Rightarrow> error + int" where
  "ParseBase2 s = (case ParseInt s 2 of Inl e \<Rightarrow> Inl e | Inr i \<Rightarrow> Inr i)"

subsection \<open>URL-safe base-64: \<open>encoding/binary\<close> and \<open>encoding/base64\<close>\<close>

text \<open>
  \<open>Base64\<close> and \<open>ParseBase64\<close> call \<open>binary.BigEndian\<close> and
  \<open>base64.RawURLEncoding\<close>, standard library too and modelled from its documentation
  and source: the URL-safe alphabet, no padding, the decoder not strict (the unused low
  bits of the last character are not checked) and skipping carriage returns and line
  feeds.
\<close>

definition PutUint64 :: "nat \<Rightarrow> nat list" where
  "PutUint64 v =
     [drop_bit 56 v mod 256, drop_bit 48 v mod 256, drop_bit 40 v mod 256,
      drop_bit 32 v mod 256, drop_bit 24 v mod 256, drop_bit 16 v mod 256,
      drop_bit 8 v mod 256, v mod 256]"

fun Uint64 :: "nat list \<Rightarrow> nat" where
  "Uint64 [b0, b1, b2, b3, b4, b5, b6, b7] =
     (b7 OR push_bit 8 b6 OR push_bit 16 b5 OR push_bit 24 b4 OR push_bit 32 b3
      OR push_bit 40 b2 OR push_bit 48 b1 OR push_bit 56 b0)"
| "Uint64 bs = 0"

definition encodeURL :: string where
  "encodeURL = ''ABCDEFGHIJKLMNOPQRSTUVWXYZabcdefghijklmnopqrstuvwxyz0123456789-_''"

definition decodeURLMap :: "char \<Rightarrow> nat" where
  "decodeURLMap = initDecodeMap encodeURL"

fun EncodeToString :: "nat list \<Rightarrow> string" where
  "EncodeToString (a # b # c # rest) =
     (let val = push_bit 16 a OR push_bit 8 b OR c in
      [encodeURL ! (drop_bit 18 val AND 0x3F), encodeURL ! (drop_bit 12 val AND 0x3F),
       encodeURL ! (drop_bit 6 val AND 0x3F), encodeURL ! (val AND 0x3F)]
      @ EncodeToString rest)"
| "EncodeToString [a, b] =
     (let val = push_bit 16 a OR push_bit 8 b in
      [encodeURL ! (drop_bit 18 val AND 0x3F), encodeURL ! (drop_bit 12 val AND 0x3F),
       encodeURL ! (drop_bit 6 val AND 0x3F)])"
| "EncodeToString [a] =
     (let val = push_bit 16 a in
      [encodeURL ! (drop_bit 18 val AND 0x3F), encodeURL ! (drop_bit 12 val AND 0x3F)])"
| "EncodeToString [] = []"

text \<open>
  Decoding: first the characters to their 6-bit values, skipping \<open>\r\<close> and \<open>\n\<close> and
  failing on any other byte outside the alphabet; then every four values to three
  bytes, a rest of three values to two bytes, of two values to one byte; a rest of one
  value is corrupt input.
\<close>

fun decodeChars :: "string \<Rightarrow> error + nat list" where
  "decodeChars [] = Inr []"
| "decodeChars (c # cs) =
     (if decodeURLMap c \<noteq> 0xFF then
        (case decodeChars cs of Inl e \<Rightarrow> Inl e | Inr vs \<Rightarrow> Inr (decodeURLMap c # vs))
      else if c = CHR 0x0A \<or> c = CHR 0x0D then decodeChars cs
      else Inl ErrBase64Corrupt)"

fun decodeQuanta :: "nat list \<Rightarrow> error + nat list" where
  "decodeQuanta (a # b # c # d # rest) =
     (let val = push_bit 18 a OR push_bit 12 b OR push_bit 6 c OR d in
      case decodeQuanta rest of
        Inl e \<Rightarrow> Inl e
      | Inr bs \<Rightarrow> Inr (drop_bit 16 val mod 256 # drop_bit 8 val mod 256 # val mod 256 # bs))"
| "decodeQuanta [a, b, c] =
     (let val = push_bit 18 a OR push_bit 12 b OR push_bit 6 c in
      Inr [drop_bit 16 val mod 256, drop_bit 8 val mod 256])"
| "decodeQuanta [a, b] =
     (let val = push_bit 18 a OR push_bit 12 b in Inr [drop_bit 16 val mod 256])"
| "decodeQuanta [a] = Inl ErrBase64Corrupt"
| "decodeQuanta [] = Inr []"

definition DecodeString :: "string \<Rightarrow> error + nat list" where
  "DecodeString s =
     (case decodeChars s of Inl e \<Rightarrow> Inl e | Inr vs \<Rightarrow> decodeQuanta vs)"

definition Base64 :: "int \<Rightarrow> string" where
  "Base64 i = EncodeToString (PutUint64 (uint64_of i))"

definition ParseBase64 :: "string \<Rightarrow> error + int" where
  "ParseBase64 s =
     (case DecodeString s of
        Inl e \<Rightarrow> Inl e
      | Inr b \<Rightarrow>
          if length b \<noteq> 8 then Inl ErrBase64InvalidLength
          else
            let val = Uint64 b in
            if val > MaxInt64 then Inl ErrBase64Overflow else Inr (int val))"

text \<open>The numeric value of a string of digits, most significant first.\<close>

definition valueOf :: "nat \<Rightarrow> nat list \<Rightarrow> nat" where
  "valueOf base ds = foldl (\<lambda>a d. a * base + d) 0 ds"

text \<open>The digits of a positive number, most significant first (none for 0).\<close>

function digitsOf :: "nat \<Rightarrow> nat \<Rightarrow> nat list" where
  "digitsOf base n = (if base < 2 \<or> n = 0 then [] else digitsOf base (n div base) @ [n mod base])"
  by pat_completeness auto
termination
  by (relation "measure (\<lambda>(base, n). n)") auto

declare digitsOf.simps [simp del]

text \<open>The decoding table after the first \<open>k\<close> rounds of the loop of \<open>init()\<close>.\<close>

definition tableUpTo :: "string \<Rightarrow> nat \<Rightarrow> char \<Rightarrow> nat" where
  "tableUpTo emap k = fold (\<lambda>i m. m(emap ! i := i)) [0..<k] (\<lambda>c. 0xFF)"

text \<open>The digits a value is written with: a single zero for 0.\<close>

definition digitsOrZero :: "nat \<Rightarrow> nat \<Rightarrow> nat list" where
  "digitsOrZero base n = (if n = 0 then [0] else digitsOf base n)"

text \<open>The 6-bit values \<open>EncodeToString\<close> looks up in the alphabet.\<close>

fun sextets :: "nat list \<Rightarrow> nat list" where
  "sextets (a # b # c # rest) =
     (let val = push_bit 16 a OR push_bit 8 b OR c in
      [drop_bit 18 val AND 0x3F, drop_bit 12 val AND 0x3F, drop_bit 6 val AND 0x3F, val AND 0x3F]
      @ sextets rest)"
| "sextets [a, b] =
     (let val = push_bit 16 a OR push_bit 8 b in
      [drop_bit 18 val AND 0x3F, drop_bit 12 val AND 0x3F, drop_bit 6 val AND 0x3F])"
| "sextets [a] =
     (let val = push_bit 16 a in [drop_bit 18 val AND 0x3F, drop_bit 12 val AND 0x3F])"
| "sextets [] = []"

text \<open>
  What a decimal or binary string denotes: the string without its optional leading
  sign, and the values of its digits.
\<close>

definition signBody :: "string \<Rightarrow> string" where
  "signBody s = (if s \<noteq> [] \<and> (hd s = CHR ''+'' \<or> hd s = CHR ''-'') then tl s else s)"

definition digitValues :: "string \<Rightarrow> nat list" where
  "digitValues s = map (\<lambda>c. the (digitOf c)) s"

text \<open>The characters of a base-64 string that are not skipped.\<close>

definition significant :: "string \<Rightarrow> string" where
  "significant s = filter (\<lambda>c. c \<noteq> CHR 0x0A \<and> c \<noteq> CHR 0x0D) s"

section \<open>The concrete scenario\<close>

lemmas layout_defs =
  TypeBits_def TimestampBits_def NodeBits_def SeqBits_def
  TypeMax_def TimestampMax_def NodeMax_def SeqMax_def
  SeqShift_def NodeShift_def TimeShift_def TypeShift_def
  SeqMask_def NodeMask_def TimestampMask_def TypeMask_def

lemmas int64_defs = wrap64_def shl64_def add64_def sub64_def

text \<open>
  C4: with the epoch constant 1735718400000, packing category 1, timestamp offset 0,
  node 0 and sequence 0 gives 9007199254740992, which is 1 shifted left by 53, and the
  extractors read category 1, offset 0, node 0 and sequence 0 back from it
  (\<open>Components\<close> reports the offset as the absolute time \<open>Epoch + 0\<close>).
\<close>

theorem C4_concrete_scenario:
  "Epoch = 1735718400000
   \<and> packID 1 0 0 0 = 9007199254740992
   \<and> packID 1 0 0 0 = push_bit 53 1
   \<and> Type 9007199254740992 = 1
   \<and> timestampMillisNodeEpoch 9007199254740992 = 0
   \<and> Node_of 9007199254740992 = 0
   \<and> Seq 9007199254740992 = 0
   \<and> Time 9007199254740992 = Epoch + 0
   \<and> Components 9007199254740992 = (1, Epoch + 0, 0, 0)"
  by (simp add: Epoch_def packID_def Type_def timestampMillisNodeEpoch_def Time_def Node_of_def
      Seq_def Components_def layout_defs int64_defs)

section \<open>Packing and unpacking\<close>

lemma wrap64_id: "- (2 ^ 63) \<le> x \<Longrightarrow> x < 2 ^ 63 \<Longrightarrow> wrap64 x = x"
  by (simp add: wrap64_def signed_take_bit_int_eq_self)

lemma shl64_id:
  assumes "0 \<le> x" "x < 2 ^ w" "k + w \<le> 63"
  shows "shl64 x k = push_bit k x"
proof -
  have "push_bit k x < 2 ^ (k + w)"
    using assms(1,2) by (simp add: push_bit_eq_mult power_add)
  also have "(2::int) ^ (k + w) \<le> 2 ^ 63"
    using assms(3) by (intro power_increasing) simp_all
  finally have hi: "push_bit k x < 2 ^ 63" .
  have "(0::int) \<le> push_bit k x"
    using assms(1) by (simp add: push_bit_eq_mult)
  then have lo: "- (2 ^ 63) \<le> push_bit k x"
    by (rule order_trans[rotated]) simp
  show ?thesis
    unfolding shl64_def by (rule wrap64_id[OF lo hi])
qed

text \<open>Inside the declared widths no shift overflows and every field is its own low bits.\<close>

lemma packID_in_range:
  assumes "idType \<le> TypeMax" "0 \<le> now" "now \<le> TimestampMax"
    "0 \<le> nd" "nd \<le> NodeMax" "0 \<le> sq" "sq \<le> SeqMax"
  shows "packID idType now nd sq =
           push_bit 53 (take_bit 10 (int idType)) OR push_bit 12 (take_bit 41 now)
           OR push_bit 10 (take_bit 2 nd) OR take_bit 10 sq"
proof -
  have c1: "int idType < 2 ^ 10" using assms(1) by (simp add: layout_defs)
  have t1: "now < 2 ^ 41" using assms(3) by (simp add: layout_defs)
  have n1: "nd < 2 ^ 2" using assms(5) by (simp add: layout_defs)
  have s1: "sq < 2 ^ 10" using assms(7) by (simp add: layout_defs)
  have c: "take_bit 10 (int idType) = int idType"
    using c1 by (simp add: take_bit_int_eq_self)
  have t: "take_bit 41 now = now"
    using assms(2) t1 by (simp add: take_bit_int_eq_self)
  have n: "take_bit 2 nd = nd"
    using assms(4) n1 by (simp add: take_bit_int_eq_self)
  have s: "take_bit 10 sq = sq"
    using assms(6) s1 by (simp add: take_bit_int_eq_self)
  have w1: "shl64 (int idType) TypeShift = push_bit 53 (int idType)"
    using shl64_id[of "int idType" 10 53] c1 by (simp add: layout_defs)
  have w2: "shl64 now TimeShift = push_bit 12 now"
    using shl64_id[of now 41 12] t1 assms(2) by (simp add: layout_defs)
  have w3: "shl64 nd NodeShift = push_bit 10 nd"
    using shl64_id[of nd 2 10] n1 assms(4) by (simp add: layout_defs)
  show ?thesis
    unfolding packID_def w1 w2 w3 c t n s ..
qed

lemma bits_Type:
  "drop_bit 53 ((push_bit 53 (take_bit 10 c) OR push_bit 12 (take_bit 41 t)
      OR push_bit 10 (take_bit 2 n) OR take_bit 10 s) AND push_bit 53 (mask 10))
   = take_bit 10 (c::int)"
  by (rule bit_eqI) (auto simp: bit_simps)

lemma bits_Time:
  "drop_bit 12 ((push_bit 53 (take_bit 10 c) OR push_bit 12 (take_bit 41 t)
      OR push_bit 10 (take_bit 2 n) OR take_bit 10 s) AND push_bit 12 (mask 41))
   = take_bit 41 (t::int)"
  by (rule bit_eqI) (auto simp: bit_simps)

lemma bits_Node:
  "drop_bit 10 ((push_bit 53 (take_bit 10 c) OR push_bit 12 (take_bit 41 t)
      OR push_bit 10 (take_bit 2 n) OR take_bit 10 s) AND push_bit 10 (mask 2))
   = take_bit 2 (n::int)"
  by (rule bit_eqI) (auto simp: bit_simps)

lemma bits_Seq:
  "(push_bit 53 (take_bit 10 c) OR push_bit 12 (take_bit 41 t)
      OR push_bit 10 (take_bit 2 n) OR take_bit 10 s) AND mask 10
   = take_bit 10 (s::int)"
  by (rule bit_eqI) (auto simp: bit_simps)

lemma masks:
  "TypeMask = push_bit 53 (mask 10)" "TimestampMask = push_bit 12 (mask 41)"
  "NodeMask = push_bit 10 (mask 2)" "SeqMask = mask 10"
  by (simp_all add: layout_defs mask_eq_exp_minus_1)

lemma fields_of_packID:
  assumes "idType \<le> TypeMax" "0 \<le> now" "now \<le> TimestampMax"
    "0 \<le> nd" "nd \<le> NodeMax" "0 \<le> sq" "sq \<le> SeqMax"
  shows "Type (packID idType now nd sq) = int idType"
    and "timestampMillisNodeEpoch (packID idType now nd sq) = now"
    and "Node_of (packID idType now nd sq) = nd"
    and "Seq (packID idType now nd sq) = sq"
proof -
  have c: "take_bit 10 (int idType) = int idType"
    using assms(1) by (simp add: take_bit_int_eq_self layout_defs)
  have t: "take_bit 41 now = now"
    using assms(2,3) by (simp add: take_bit_int_eq_self layout_defs)
  have n: "take_bit 2 nd = nd"
    using assms(4,5) by (simp add: take_bit_int_eq_self layout_defs)
  have s: "take_bit 10 sq = sq"
    using assms(6,7) by (simp add: take_bit_int_eq_self layout_defs)
  show "Type (packID idType now nd sq) = int idType"
    unfolding Type_def packID_in_range[OF assms] masks
    using bits_Type[of "int idType" now nd sq] c by (simp add: layout_defs)
  show "timestampMillisNodeEpoch (packID idType now nd sq) = now"
    unfolding timestampMillisNodeEpoch_def packID_in_range[OF assms] masks
    using bits_Time[of "int idType" now nd sq] t by (simp add: layout_defs)
  show "Node_of (packID idType now nd sq) = nd"
    unfolding Node_of_def packID_in_range[OF assms] masks
    using bits_Node[of "int idType" now nd sq] n by (simp add: layout_defs)
  show "Seq (packID idType now nd sq) = sq"
    unfolding Seq_def packID_in_range[OF assms] masks
    using bits_Seq[of "int idType" now nd sq] s by simp
qed

text \<open>
  C3: for category in [0, 1023], timestamp offset in [0, 2^41 - 1], node in [0, 3] and
  sequence in [0, 1023], the extractors applied to the packed identifier return the four
  fields that were packed. \<open>Time\<close> and \<open>Components\<close> report the timestamp offset as
  absolute Unix milliseconds, the offset plus \<open>Epoch\<close>; category, node and sequence
  come back as they are.
\<close>

theorem C3_field_roundtrip:
  assumes "idType \<le> 1023" "0 \<le> now" "now \<le> 2 ^ 41 - 1"
    "0 \<le> nd" "nd \<le> 3" "0 \<le> sq" "sq \<le> 1023"
  shows "Type (packID idType now nd sq) = int idType
       \<and> timestampMillisNodeEpoch (packID idType now nd sq) = now
       \<and> Node_of (packID idType now nd sq) = nd
       \<and> Seq (packID idType now nd sq) = sq
       \<and> Time (packID idType now nd sq) = now + Epoch
       \<and> Components (packID idType now nd sq) = (idType, now + Epoch, nd, sq)"
proof -
  have r: "idType \<le> TypeMax" "0 \<le> now" "now \<le> TimestampMax"
    "0 \<le> nd" "nd \<le> NodeMax" "0 \<le> sq" "sq \<le> SeqMax"
    using assms by (simp_all add: layout_defs)
  note f = fields_of_packID[OF r]
  have "add64 now Epoch = now + Epoch"
    unfolding add64_def using assms(2,3) by (intro wrap64_id) (simp_all add: Epoch_def)
  moreover have "nat (int idType mod 2 ^ 16) = idType"
    using assms(1) by simp
  moreover have "Time (packID idType now nd sq)
                 = add64 (timestampMillisNodeEpoch (packID idType now nd sq)) Epoch"
    by (simp add: Time_def timestampMillisNodeEpoch_def)
  ultimately show ?thesis
    by (simp add: f Components_def)
qed

theorem C3_field_roundtrip_witness:
  "(5::nat) \<le> 1023 \<and> (0::int) \<le> 123456 \<and> (123456::int) \<le> 2 ^ 41 - 1
   \<and> (0::int) \<le> 2 \<and> (2::int) \<le> 3 \<and> (0::int) \<le> 7 \<and> (7::int) \<le> 1023
   \<and> Type (packID 5 123456 2 7) = 5
   \<and> timestampMillisNodeEpoch (packID 5 123456 2 7) = 123456
   \<and> Node_of (packID 5 123456 2 7) = 2
   \<and> Seq (packID 5 123456 2 7) = 7
   \<and> Time (packID 5 123456 2 7) = 123456 + Epoch
   \<and> Components (packID 5 123456 2 7) = (5, 123456 + Epoch, 2, 7)"
  using C3_field_roundtrip[of 5 123456 2 7] by simp

section \<open>The generator: arithmetic of identifiers\<close>

lemma or_sum4:
  "push_bit 53 (take_bit 10 c) OR push_bit 12 (take_bit 41 t)
      OR push_bit 10 (take_bit 2 n) OR take_bit 10 s
   = push_bit 53 (take_bit 10 c) + (push_bit 12 (take_bit 41 t)
      + (push_bit 10 (take_bit 2 n) + take_bit 10 (s::int)))"
proof -
  have a: "push_bit 10 (take_bit 2 n) AND take_bit 10 s = 0"
    by (rule bit_eqI) (auto simp: bit_simps)
  have b: "push_bit 12 (take_bit 41 t) AND (push_bit 10 (take_bit 2 n) OR take_bit 10 s) = 0"
    by (rule bit_eqI) (auto simp: bit_simps)
  have c: "push_bit 53 (take_bit 10 c) AND (push_bit 12 (take_bit 41 t)
      OR push_bit 10 (take_bit 2 n) OR take_bit 10 s) = 0"
    by (rule bit_eqI) (auto simp: bit_simps)
  show ?thesis
    by (simp only: disjunctive_add_eq_or[OF a] disjunctive_add_eq_or[OF b] disjunctive_add_eq_or[OF c])
qed

lemma packID_sum:
  assumes "idType \<le> TypeMax" "0 \<le> now" "now \<le> TimestampMax"
    "0 \<le> nd" "nd \<le> NodeMax" "0 \<le> sq" "sq \<le> SeqMax"
  shows "packID idType now nd sq = int idType * 2 ^ 53 + now * 2 ^ 12 + nd * 2 ^ 10 + sq"
proof -
  have c: "take_bit 10 (int idType) = int idType"
    using assms(1) by (simp add: take_bit_int_eq_self layout_defs)
  have t: "take_bit 41 now = now"
    using assms(2,3) by (simp add: take_bit_int_eq_self layout_defs)
  have n: "take_bit 2 nd = nd"
    using assms(4,5) by (simp add: take_bit_int_eq_self layout_defs)
  have s: "take_bit 10 sq = sq"
    using assms(6,7) by (simp add: take_bit_int_eq_self layout_defs)
  have "packID idType now nd sq =
           push_bit 53 (take_bit 10 (int idType)) OR push_bit 12 (take_bit 41 now)
           OR push_bit 10 (take_bit 2 nd) OR take_bit 10 sq"
    by (rule packID_in_range[OF assms])
  also have "\<dots> = push_bit 53 (take_bit 10 (int idType)) + (push_bit 12 (take_bit 41 now)
      + (push_bit 10 (take_bit 2 nd) + take_bit 10 sq))"
    by (rule or_sum4)
  also have "\<dots> = int idType * 2 ^ 53 + now * 2 ^ 12 + nd * 2 ^ 10 + sq"
    by (simp only: c t n s push_bit_eq_mult)
  finally show ?thesis .
qed

lemma seq_step:
  assumes "0 \<le> sq" "sq \<le> SeqMax"
  shows "add64 sq 1 AND SeqMax = (if sq = SeqMax then 0 else sq + 1)"
proof -
  have w: "add64 sq 1 = sq + 1"
    unfolding add64_def using assms by (intro wrap64_id) (simp_all add: layout_defs)
  have m: "SeqMax = mask 10" by (simp add: layout_defs mask_eq_exp_minus_1)
  have "(sq + 1) AND mask 10 = (sq + 1) mod 2 ^ 10"
    by (simp add: take_bit_eq_mod flip: take_bit_eq_mask)
  also have "\<dots> = (if sq = SeqMax then 0 else sq + 1)"
    using assms by (simp add: layout_defs)
  finally show ?thesis unfolding w m[symmetric] by (simp add: m)
qed

lemma fold_applyOption_fields:
  "lastID (fold applyOption os n) = lastID n"
  "node (fold applyOption os n) = node n"
  "time (fold applyOption os n) = time n"
  "seq (fold applyOption os n) = seq n"
  "clockWarningCount (fold applyOption os n) = clockWarningCount n"
proof (induction os arbitrary: n)
  case Nil
  {
    case 1 show ?case by simp
  next
    case 2 show ?case by simp
  next
    case 3 show ?case by simp
  next
    case 4 show ?case by simp
  next
    case 5 show ?case by simp
  }
next
  case (Cons a os)
  {
    case 1 show ?case by (cases a) (simp_all add: Cons.IH)
  next
    case 2 show ?case by (cases a) (simp_all add: Cons.IH)
  next
    case 3 show ?case by (cases a) (simp_all add: Cons.IH)
  next
    case 4 show ?case by (cases a) (simp_all add: Cons.IH)
  next
    case 5 show ?case by (cases a) (simp_all add: Cons.IH)
  }
qed

lemma NewNode_fresh:
  assumes "NewNode nodeID options = Inr n"
  shows "lastID n = 0" "node n = nodeID" "time n = 0" "seq n = 0" "0 \<le> node n" "node n \<le> NodeMax"
  using assms by (auto simp: NewNode_def fold_applyOption_fields split: if_splits)

lemma packID_pos:
  assumes "idType \<le> TypeMax" "0 \<le> now" "now \<le> TimestampMax"
    "0 \<le> nd" "nd \<le> NodeMax" "0 \<le> sq" "sq \<le> SeqMax" "0 < now \<or> 0 < sq"
  shows "0 < packID idType now nd sq"
proof -
  have "0 < now * 2 ^ 12 + sq" using assms(2,6,8) by auto
  moreover have "0 \<le> int idType * 2 ^ 53" "0 \<le> nd * 2 ^ 10" using assms(4) by simp_all
  ultimately show ?thesis unfolding packID_sum[OF assms(1-7)] by linarith
qed

lemma packID_mono:
  assumes "c \<le> c'" "c' \<le> TypeMax" "0 \<le> t" "t' \<le> TimestampMax"
    "0 \<le> nd" "nd \<le> NodeMax" "0 \<le> s" "s \<le> SeqMax" "0 \<le> s'" "s' \<le> SeqMax"
    "t < t' \<or> (t = t' \<and> s < s')"
  shows "packID c t nd s < packID c' t' nd s'"
proof -
  have r1: "c \<le> TypeMax" "0 \<le> t" "t \<le> TimestampMax" using assms by auto
  have r2: "0 \<le> t'" using assms by auto
  have cc: "int c * 2 ^ 53 \<le> int c' * 2 ^ 53" using assms(1) by simp
  have "t * 2 ^ 12 + s < t' * 2 ^ 12 + s'"
    using assms(7-11) by (auto simp: layout_defs)
  with cc show ?thesis
    unfolding packID_sum[OF r1(1) r1(2) r1(3) assms(5,6,7,8)]
      packID_sum[OF assms(2) r2 assms(4) assms(5,6,9,10)]
    by linarith
qed

subsection \<open>The offset of a timestamp\<close>

lemmas time_defs = minDuration_def maxDuration_def UTC_def Sub_def Milliseconds_def
  Unix_def epochTime_def Epoch_def

lemma epochTime_value: "epochTime = 1735718400000000000"
  by (simp add: time_defs)

lemma offset_exact:
  assumes "epochTime + now * 1000000 \<le> ts" "ts < epochTime + (now + 1) * 1000000"
    "0 \<le> now" "now \<le> TimestampMax"
  shows "Milliseconds (Sub (UTC ts) epochTime) = now"
proof -
  define r where "r = ts - epochTime - now * 1000000"
  have r: "0 \<le> r" "r < 1000000" using assms(1,2) by (simp_all add: r_def algebra_simps)
  have d: "ts - epochTime = r + now * 1000000" by (simp add: r_def)
  have "now * 1000000 \<le> (2 ^ 41 - 1) * 1000000"
    using assms(4) by (simp add: layout_defs)
  then have ub: "r + now * 1000000 \<le> maxDuration"
    using r(2) by (simp add: maxDuration_def)
  have lb: "0 \<le> r + now * 1000000" using r(1) assms(3) by simp
  have s: "Sub (UTC ts) epochTime = r + now * 1000000"
    using ub lb by (simp add: Sub_def UTC_def d Let_def minDuration_def)
  have "(r + now * 1000000) div 1000000 = now"
    using r by (simp add: div_pos_pos_trivial)
  then show ?thesis
    using lb by (simp add: s Milliseconds_def)
qed

lemma offset_zero:
  assumes "epochTime - 1000000 < ts" "ts < epochTime + 1000000"
  shows "Milliseconds (Sub (UTC ts) epochTime) = 0"
proof -
  define d where "d = ts - epochTime"
  have d: "- 1000000 < d" "d < 1000000" using assms by (simp_all add: d_def)
  have s: "Sub (UTC ts) epochTime = d"
    using d by (simp add: Sub_def UTC_def d_def[symmetric] Let_def minDuration_def maxDuration_def)
  show ?thesis
  proof (cases "d < 0")
    case True
    then have "(- d) div 1000000 = 0" using d(1) by (simp add: div_pos_pos_trivial)
    then show ?thesis using True by (simp add: s Milliseconds_def)
  next
    case False
    then have "d div 1000000 = 0" using d(2) by (simp add: div_pos_pos_trivial)
    then show ?thesis using False by (simp add: s Milliseconds_def)
  qed
qed

lemma offset_pos:
  assumes "epochTime + 1000000 \<le> ts"
  shows "0 < Milliseconds (Sub (UTC ts) epochTime)"
proof -
  have "1000000 \<le> Sub (UTC ts) epochTime"
    using assms by (simp add: Sub_def UTC_def Let_def minDuration_def maxDuration_def)
  then have "1000000 div 1000000 \<le> Sub (UTC ts) epochTime div (1000000 :: int)"
    by (intro zdiv_mono1) simp_all
  then show ?thesis
    using \<open>1000000 \<le> Sub (UTC ts) epochTime\<close> by (simp add: Milliseconds_def)
qed

lemma offset_le:
  assumes "ts < epochTime + 2 ^ 41 * 1000000"
  shows "Milliseconds (Sub (UTC ts) epochTime) \<le> TimestampMax"
proof -
  define d where "d = Sub (UTC ts) epochTime"
  have ub: "d < 2 ^ 41 * 1000000"
    using assms by (simp add: d_def Sub_def UTC_def Let_def minDuration_def maxDuration_def)
  show ?thesis
  proof (cases "d < 0")
    case True
    then have "0 \<le> (- d) div 1000000" by (simp add: pos_imp_zdiv_nonneg_iff)
    then show ?thesis using True by (simp add: d_def[symmetric] Milliseconds_def layout_defs)
  next
    case False
    have "d div 1000000 < 2 ^ 41"
      using ub by (simp add: div_less_iff_less_mult)
    then show ?thesis using False by (simp add: d_def[symmetric] Milliseconds_def layout_defs)
  qed
qed

subsection \<open>The first call of a fresh generator\<close>

lemma GWT_fresh_epoch:
  assumes "NewNode nodeID options = Inr n" "idType \<le> TypeMax"
    "Milliseconds (Sub (UTC ts) epochTime) = 0"
  shows "fst (GenerateWithTimestamp n idType ts) = Inr (packID idType 0 (node n) 1)"
proof -
  note f = NewNode_fresh[OF assms(1)]
  have s1: "add64 0 1 AND SeqMax = 1"
    by (simp add: int64_defs layout_defs)
  have t0: "\<not> 0 > TimestampMax" by (simp add: layout_defs)
  have "0 < packID idType 0 (node n) 1"
    using assms(2) f(5,6) by (intro packID_pos) (simp_all add: layout_defs)
  then show ?thesis
    using assms(2) t0
    by (simp add: GenerateWithTimestamp_def generateInternal_def f(1,3,4) s1 Let_def assms(3))
qed

lemma GWT_fresh_later:
  assumes "NewNode nodeID options = Inr n" "idType \<le> TypeMax" "0 < now" "now \<le> TimestampMax"
    "Milliseconds (Sub (UTC ts) epochTime) = now"
  shows "fst (GenerateWithTimestamp n idType ts) = Inr (packID idType now (node n) 0)"
proof -
  note f = NewNode_fresh[OF assms(1)]
  have "0 < packID idType now (node n) 0"
    using assms(2,3,4) f(5,6) by (intro packID_pos) (simp_all add: layout_defs)
  then show ?thesis
    using assms(2,3,4)
    by (simp add: GenerateWithTimestamp_def generateInternal_def f(1,3,4) Let_def assms(5))
qed

lemma GWT_Inr_ranges:
  assumes "fst (GenerateWithTimestamp n idType ts) = Inr i"
  shows "idType \<le> TypeMax" "Milliseconds (Sub (UTC ts) epochTime) \<le> TimestampMax"
  using assms
  by (auto simp: GenerateWithTimestamp_def generateInternal_def Let_def split: if_splits)

text \<open>
  C9 as stated fails in its last part. \<open>GenerateWithTimestamp\<close> reduces the timestamp
  to whole milliseconds since the epoch, truncating (line 230), so a first call half a
  millisecond after the epoch is strictly later than the epoch, has offset 0, takes the
  same-millisecond branch against the initial state and returns sequence 1.
\<close>

theorem C9_counterexample:
  "NewNode 0 [] = Inr \<lparr>lastID = 0, node = 0, time = 0, seq = 0, clockWarningCount = 0,
       strictMonotonicityChecks = True, quietMode = False\<rparr>
   \<and> epochTime = 1735718400000000000
   \<and> epochTime < 1735718400000500000
   \<and> Milliseconds (Sub (UTC 1735718400000500000) epochTime) = 0
   \<and> GenerateWithTimestamp \<lparr>lastID = 0, node = 0, time = 0, seq = 0, clockWarningCount = 0,
       strictMonotonicityChecks = True, quietMode = False\<rparr> 7 1735718400000500000
     = (Inr 63050394783186945, \<lparr>lastID = 63050394783186945, node = 0, time = 0, seq = 1,
          clockWarningCount = 0, strictMonotonicityChecks = True, quietMode = False\<rparr>)
   \<and> Seq 63050394783186945 = 1
   \<and> Seq 63050394783186945 \<noteq> 0"
  by (simp add: NewNode_def GenerateWithTimestamp_def generateInternal_def packID_def Seq_def
      time_defs layout_defs int64_defs)

text \<open>
  C9, amended: a freshly constructed generator has last timestamp offset 0 and sequence
  0. Its first \<open>GenerateWithTimestamp\<close> call with a timestamp less than one
  millisecond away from the epoch (the epoch itself included: offset 0) takes the
  same-millisecond branch and returns an identifier whose sequence field is 1, for every
  category up to 1023. A first call with a timestamp at least one millisecond after the
  epoch returns sequence 0 whenever it returns an identifier, and it does return one
  when the category is at most 1023 and the timestamp less than 2^41 milliseconds after
  the epoch.
\<close>

theorem C9_first_call_sequence:
  assumes "NewNode nodeID options = Inr n"
  shows "time n = 0 \<and> seq n = 0
       \<and> (idType \<le> 1023 \<and> epochTime - 1000000 < ts0 \<and> ts0 < epochTime + 1000000 \<longrightarrow>
            (\<exists>i. fst (GenerateWithTimestamp n idType ts0) = Inr i \<and> Seq i = 1))
       \<and> (epochTime + 1000000 \<le> ts \<longrightarrow>
            (\<forall>i. fst (GenerateWithTimestamp n idType ts) = Inr i \<longrightarrow> Seq i = 0)
          \<and> (idType \<le> 1023 \<and> ts < epochTime + 2 ^ 41 * 1000000 \<longrightarrow>
               (\<exists>i. fst (GenerateWithTimestamp n idType ts) = Inr i)))"
proof -
  note f = NewNode_fresh[OF assms]
  have tm: "TypeMax = 1023" "TimestampMax = 2 ^ 41 - 1" by (simp_all add: layout_defs)
  have a: "\<exists>i. fst (GenerateWithTimestamp n idType ts0) = Inr i \<and> Seq i = 1"
    if "idType \<le> 1023" "epochTime - 1000000 < ts0" "ts0 < epochTime + 1000000"
  proof -
    have c: "idType \<le> TypeMax" using that(1) by (simp add: tm)
    have "Seq (packID idType 0 (node n) 1) = 1"
      using c f(5,6) by (intro fields_of_packID) (simp_all add: layout_defs)
    with GWT_fresh_epoch[OF assms c offset_zero[OF that(2,3)]] show ?thesis by simp
  qed
  have b: "Seq i = 0"
    if "epochTime + 1000000 \<le> ts" "fst (GenerateWithTimestamp n idType ts) = Inr i" for i
  proof -
    note r = GWT_Inr_ranges[OF that(2)]
    note p = offset_pos[OF that(1)]
    have "Seq (packID idType (Milliseconds (Sub (UTC ts) epochTime)) (node n) 0) = 0"
      using r p f(5,6) by (intro fields_of_packID) (simp_all add: layout_defs)
    with GWT_fresh_later[OF assms r(1) p r(2) refl] that(2) show ?thesis by simp
  qed
  have c: "\<exists>i. fst (GenerateWithTimestamp n idType ts) = Inr i"
    if "epochTime + 1000000 \<le> ts" "idType \<le> 1023" "ts < epochTime + 2 ^ 41 * 1000000"
  proof -
    have "idType \<le> TypeMax" using that(2) by (simp add: tm)
    from GWT_fresh_later[OF assms this offset_pos[OF that(1)] offset_le[OF that(3)] refl]
    show ?thesis by blast
  qed
  show ?thesis using f(3,4) a b c by blast
qed

theorem C9_first_call_sequence_witness:
  "NewNode 2 [] = Inr \<lparr>lastID = 0, node = 2, time = 0, seq = 0,
             clockWarningCount = 0, strictMonotonicityChecks = True, quietMode = False\<rparr>
   \<and> time \<lparr>lastID = 0, node = 2, time = 0, seq = 0,
             clockWarningCount = 0, strictMonotonicityChecks = True, quietMode = False\<rparr> = 0
   \<and> seq \<lparr>lastID = 0, node = 2, time = 0, seq = 0,
             clockWarningCount = 0, strictMonotonicityChecks = True, quietMode = False\<rparr> = 0
   \<and> epochTime - 1000000 < 1735718400000000000
   \<and> 1735718400000000000 < epochTime + 1000000
   \<and> (\<exists>i. fst (GenerateWithTimestamp \<lparr>lastID = 0, node = 2, time = 0, seq = 0,
             clockWarningCount = 0, strictMonotonicityChecks = True, quietMode = False\<rparr>
               7 1735718400000000000) = Inr i
          \<and> Seq i = 1)
   \<and> epochTime + 1000000 \<le> 1735718400005000000
   \<and> 1735718400005000000 < epochTime + 2 ^ 41 * 1000000
   \<and> (\<exists>i. fst (GenerateWithTimestamp \<lparr>lastID = 0, node = 2, time = 0, seq = 0,
             clockWarningCount = 0, strictMonotonicityChecks = True, quietMode = False\<rparr>
               7 1735718400005000000) = Inr i
          \<and> Seq i = 0)"
proof -
  have n: "NewNode 2 [] = Inr \<lparr>lastID = 0, node = 2, time = 0, seq = 0,
             clockWarningCount = 0, strictMonotonicityChecks = True, quietMode = False\<rparr>"
    by (simp add: NewNode_def layout_defs)
  have h: "epochTime - 1000000 < 1735718400000000000"
    "1735718400000000000 < epochTime + 1000000"
    "epochTime + 1000000 \<le> 1735718400005000000"
    "1735718400005000000 < epochTime + 2 ^ 41 * 1000000"
    by (simp_all add: epochTime_value)
  show ?thesis
    using n h C9_first_call_sequence[OF n, of 7 1735718400000000000 1735718400005000000]
    by auto
qed

section \<open>The generator: what one call does\<close>

lemma generateInternal_result:
  assumes "generateInternal n idType now = (r, n')"
  shows "node n' = node n" "seq n' = seq n" "time n' = now"
    "strictMonotonicityChecks n' = strictMonotonicityChecks n" "quietMode n' = quietMode n"
    "clockWarningCount n' = clockWarningCount n"
    "\<And>e. r = Inl e \<Longrightarrow> lastID n' = lastID n \<and> (e = ErrTimestampOverflow \<or> e = ErrMonotonicityViolation)"
    "\<And>i. r = Inr i \<Longrightarrow> lastID n' = i \<and> i = packID idType now (node n) (seq n) \<and> now \<le> TimestampMax
        \<and> (strictMonotonicityChecks n \<longrightarrow> lastID n < i)"
  using assms by (auto simp: generateInternal_def Let_def split: if_splits)

lemma waitLoop_Inr: "waitLoop originalTime fresh now attempts = Inr x \<Longrightarrow> now \<le> originalTime \<Longrightarrow> originalTime < x"
proof (induction originalTime fresh now attempts rule: waitLoop.induct)
  case (1 originalTime fresh now attempts)
  show ?case
  proof (cases "fresh (attempts + 1) > originalTime")
    case True
    with "1.prems" show ?thesis
      by (subst (asm) waitLoop.simps) (auto simp: Let_def split: if_splits)
  next
    case False
    with "1.prems" have a: "\<not> attempts + 1 > maxRolloverWaitAttempts"
      and b: "waitLoop originalTime fresh (fresh (attempts + 1)) (attempts + 1) = Inr x"
      by (subst (asm) waitLoop.simps, auto simp: Let_def split: if_splits)+
    show ?thesis
      using "1.IH"[OF "1.prems"(2) refl a refl _ b] False by simp
  qed
qed

lemma waitLoop_Inl: "waitLoop originalTime fresh now attempts = Inl e \<Longrightarrow> e = ErrClockNotAdvancing ClockStuck"
proof (induction originalTime fresh now attempts rule: waitLoop.induct)
  case (1 originalTime fresh now attempts)
  from "1.prems" show ?case
    by (subst (asm) waitLoop.simps) (auto simp: Let_def split: if_splits dest: "1.IH"[OF _ refl _ refl])
qed

lemma GenerateWithTimestamp_cases:
  assumes "GenerateWithTimestamp n idType timestamp = (r, n')"
    "now = Milliseconds (Sub (UTC timestamp) epochTime)"
  shows "(idType > TypeMax \<and> r = Inl ErrInvalIDType \<and> n' = n)
       \<or> (idType \<le> TypeMax \<and> now = time n \<and> add64 (seq n) 1 AND SeqMax = 0
            \<and> r = Inl (ErrClockNotAdvancing SequenceExhausted) \<and> n' = n\<lparr>seq := 0\<rparr>)
       \<or> (\<exists>sq. idType \<le> TypeMax \<and> generateInternal (n\<lparr>seq := sq\<rparr>) idType now = (r, n')
            \<and> ((now = time n \<and> sq = add64 (seq n) 1 AND SeqMax \<and> sq \<noteq> 0)
               \<or> (now \<noteq> time n \<and> sq = 0)))"
  using assms by (auto simp: GenerateWithTimestamp_def Let_def split: if_splits)

lemma Generate_cases:
  assumes "Generate n idType now0 fresh = (r, n')"
  shows "(idType > TypeMax \<and> r = Inl ErrInvalIDType \<and> n' = n)
       \<or> (\<exists>w. idType \<le> TypeMax \<and> add64 (seq n) 1 AND SeqMax = 0
            \<and> r = Inl (ErrClockNotAdvancing ClockStuck)
            \<and> n' = n\<lparr>clockWarningCount := w\<rparr>\<lparr>seq := 0\<rparr>)
       \<or> (\<exists>w now sq. idType \<le> TypeMax
            \<and> generateInternal (n\<lparr>clockWarningCount := w\<rparr>\<lparr>seq := sq\<rparr>) idType now = (r, n')
            \<and> ((now = time n \<and> sq = add64 (seq n) 1 AND SeqMax \<and> sq \<noteq> 0)
               \<or> (time n < now \<and> sq = 0)))"
proof (cases "idType > TypeMax")
  case True
  with assms show ?thesis by (simp add: Generate_def)
next
  case False
  define nA where "nA = (if now0 < time n \<and> now0 < sub64 (time n) 1
                  then n\<lparr>clockWarningCount := add64 (clockWarningCount n) 1\<rparr> else n)"
  define now1 where "now1 = (if now0 < time n then time n else now0)"
  define nB where "nB = nA\<lparr>seq := add64 (seq nA) 1 AND SeqMax\<rparr>"
  have "\<exists>w. nA = n\<lparr>clockWarningCount := w\<rparr>"
  proof (cases "now0 < time n \<and> now0 < sub64 (time n) 1")
    case True
    then show ?thesis unfolding nA_def by auto
  next
    case False
    then have "nA = n\<lparr>clockWarningCount := clockWarningCount n\<rparr>" unfolding nA_def by auto
    then show ?thesis ..
  qed
  then obtain w where w: "nA = n\<lparr>clockWarningCount := w\<rparr>" ..
  have tA: "time nA = time n" "seq nA = seq n" by (simp_all add: w)
  have n1: "time n \<le> now1" by (simp add: now1_def)
  have G: "(r, n') = (if now1 = time nA then
          (if seq nB = 0 then
             (case waitLoop (time nB) fresh now1 0 of
                Inl e \<Rightarrow> (Inl e, nB)
              | Inr now2 \<Rightarrow> generateInternal nB idType now2)
           else generateInternal nB idType now1)
        else generateInternal (nA\<lparr>seq := 0\<rparr>) idType now1)"
    using assms False unfolding Generate_def nA_def now1_def nB_def Let_def by simp
  show ?thesis
  proof (cases "now1 = time nA")
    case ne: False
    then have "time n < now1" using n1 tA by simp
    moreover have "generateInternal (n\<lparr>clockWarningCount := w\<rparr>\<lparr>seq := 0\<rparr>) idType now1 = (r, n')"
      using G ne by (simp add: w)
    ultimately show ?thesis using False by auto
  next
    case eq: True
    show ?thesis
    proof (cases "seq nB = 0")
      case s0: False
      have "generateInternal (n\<lparr>clockWarningCount := w\<rparr>\<lparr>seq := add64 (seq n) 1 AND SeqMax\<rparr>) idType now1 = (r, n')"
        using G eq s0 by (simp add: nB_def w)
      moreover have "add64 (seq n) 1 AND SeqMax \<noteq> 0" using s0 by (simp add: nB_def tA)
      moreover have "now1 = time n" using eq tA by simp
      ultimately show ?thesis using False by auto
    next
      case s0: True
      have sB: "add64 (seq n) 1 AND SeqMax = 0" using s0 by (simp add: nB_def tA)
      have nB0: "nB = n\<lparr>clockWarningCount := w\<rparr>\<lparr>seq := 0\<rparr>"
        using sB by (simp add: nB_def w)
      show ?thesis
      proof (cases "waitLoop (time nB) fresh now1 0")
        case (Inl e)
        then have "r = Inl (ErrClockNotAdvancing ClockStuck)" "n' = nB"
          using G eq s0 waitLoop_Inl[OF Inl] by simp_all
        then show ?thesis using False sB nB0 by auto
      next
        case (Inr now2)
        have "time nB = time n" by (simp add: nB_def tA)
        moreover have "now1 \<le> time nB" using eq by (simp add: nB_def)
        ultimately have "time n < now2" using waitLoop_Inr[OF Inr] by simp
        moreover have "generateInternal (n\<lparr>clockWarningCount := w\<rparr>\<lparr>seq := 0\<rparr>) idType now2 = (r, n')"
          using G eq s0 Inr by (simp add: nB0)
        ultimately show ?thesis using False by auto
      qed
    qed
  qed
qed

section \<open>Strict ordering\<close>

lemma generateInternal_step_ok:
  assumes "generateInternal m idType now = (r, n')"
    and "lastID m = lastID n" "strictMonotonicityChecks m = strictMonotonicityChecks n"
    and "node m = node n" "quietMode m = quietMode n"
  shows "step_ok n r n'"
  using generateInternal_result[OF assms(1)] assms(2-5) unfolding step_ok_def by metis

lemma step_lastID:
  assumes "step n c = (r, n')"
  shows "step_ok n r n'"
proof (cases c)
  case (CallGenerate idType now0 fresh)
  with assms have "Generate n idType now0 fresh = (r, n')" by simp
  from Generate_cases[OF this]
  consider "r = Inl ErrInvalIDType" "n' = n"
    | w where "r = Inl (ErrClockNotAdvancing ClockStuck)" "n' = n\<lparr>clockWarningCount := w\<rparr>\<lparr>seq := 0\<rparr>"
    | w now sq where "generateInternal (n\<lparr>clockWarningCount := w\<rparr>\<lparr>seq := sq\<rparr>) idType now = (r, n')"
    by blast
  then show ?thesis
  proof cases
    case 1
    then show ?thesis by (simp add: step_ok_def)
  next
    case 2
    then show ?thesis by (simp add: step_ok_def)
  next
    case 3
    then show ?thesis by (rule generateInternal_step_ok) simp_all
  qed
next
  case (CallGenerateWithTimestamp idType timestamp)
  with assms have "GenerateWithTimestamp n idType timestamp = (r, n')" by simp
  from GenerateWithTimestamp_cases[OF this refl]
  consider "r = Inl ErrInvalIDType" "n' = n"
    | "r = Inl (ErrClockNotAdvancing SequenceExhausted)" "n' = n\<lparr>seq := 0\<rparr>"
    | sq now where "generateInternal (n\<lparr>seq := sq\<rparr>) idType now = (r, n')"
    by blast
  then show ?thesis
  proof cases
    case 1
    then show ?thesis by (simp add: step_ok_def)
  next
    case 2
    then show ?thesis by (simp add: step_ok_def)
  next
    case 3
    then show ?thesis by (rule generateInternal_step_ok) simp_all
  qed
qed

lemma run_increasing:
  assumes "strictMonotonicityChecks n"
  shows "sorted_wrt (<) (successes (fst (run n cs)))
       \<and> (\<forall>i \<in> set (successes (fst (run n cs))). lastID n < i)"
  using assms
proof (induction cs arbitrary: n)
  case Nil
  then show ?case by simp
next
  case (Cons c cs)
  obtain r n' where s: "step n c = (r, n')" by (cases "step n c")
  obtain rs n'' where rn: "run n' cs = (rs, n'')" by (cases "run n' cs")
  have l: "strictMonotonicityChecks n' = strictMonotonicityChecks n"
    "\<And>e. r = Inl e \<Longrightarrow> lastID n' = lastID n"
    "\<And>i. r = Inr i \<Longrightarrow> lastID n' = i \<and> (strictMonotonicityChecks n \<longrightarrow> lastID n < i)"
    using step_lastID[OF s] unfolding step_ok_def by blast+
  have st: "strictMonotonicityChecks n'" using l(1) Cons.prems by simp
  from Cons.IH[OF st] rn
  have ih: "sorted_wrt (<) (successes rs)" "\<forall>i \<in> set (successes rs). lastID n' < i"
    by simp_all
  have res: "fst (run n (c # cs)) = r # rs" by (simp add: s rn)
  show ?case
  proof (cases r)
    case (Inl e)
    with l(2)[OF Inl] ih show ?thesis unfolding res by simp
  next
    case (Inr i)
    with l(3)[OF Inr] ih Cons.prems show ?thesis unfolding res by auto
  qed
qed

text \<open>
  C1: on a generator with strict monotonicity enabled, the identifiers returned by the
  successful calls of any sequence of calls are strictly increasing as integers and all
  greater than the identifier stored before; each successful \<open>Generate\<close> returns a
  value strictly greater than the stored last identifier and records it as the new one.
\<close>

theorem C1_strictly_increasing:
  assumes "strictMonotonicityChecks n"
  shows "sorted_wrt (<) (successes (fst (run n cs)))
       \<and> (\<forall>i \<in> set (successes (fst (run n cs))). lastID n < i)
       \<and> (Generate n idType now0 fresh = (Inr i, n')
            \<longrightarrow> lastID n < i \<and> LastID n' = i \<and> strictMonotonicityChecks n')"
proof -
  have "lastID n < i \<and> LastID n' = i \<and> strictMonotonicityChecks n'"
    if "Generate n idType now0 fresh = (Inr i, n')"
  proof -
    have "step n (CallGenerate idType now0 fresh) = (Inr i, n')" using that by simp
    from step_lastID[OF this] assms show ?thesis by (simp add: LastID_def step_ok_def)
  qed
  with run_increasing[OF assms] show ?thesis by blast
qed

theorem C1_strictly_increasing_witness:
  "strictMonotonicityChecks \<lparr>lastID = 0, node = 0, time = 0, seq = 0, clockWarningCount = 0,
       strictMonotonicityChecks = True, quietMode = False\<rparr>
   \<and> successes (fst (run \<lparr>lastID = 0, node = 0, time = 0, seq = 0, clockWarningCount = 0,
       strictMonotonicityChecks = True, quietMode = False\<rparr>
       [CallGenerate 1 5 (constClock 5), CallGenerate 0 5 (constClock 5),
        CallGenerate 1 5 (constClock 5)])) = [9007199254761472, 9007199254761474]
   \<and> sorted_wrt (<) (successes (fst (run \<lparr>lastID = 0, node = 0, time = 0, seq = 0,
       clockWarningCount = 0, strictMonotonicityChecks = True, quietMode = False\<rparr>
       [CallGenerate 1 5 (constClock 5), CallGenerate 0 5 (constClock 5),
        CallGenerate 1 5 (constClock 5)])))
   \<and> Generate \<lparr>lastID = 0, node = 0, time = 0, seq = 0, clockWarningCount = 0,
       strictMonotonicityChecks = True, quietMode = False\<rparr> 1 5 (constClock 5)
     = (Inr 9007199254761472, \<lparr>lastID = 9007199254761472, node = 0, time = 5, seq = 0,
       clockWarningCount = 0, strictMonotonicityChecks = True, quietMode = False\<rparr>)
   \<and> (0::int) < 9007199254761472
   \<and> LastID \<lparr>lastID = 9007199254761472, node = 0, time = 5, seq = 0,
       clockWarningCount = 0, strictMonotonicityChecks = True, quietMode = False\<rparr>
     = 9007199254761472"
proof -
  have g: "Generate \<lparr>lastID = 0, node = 0, time = 0, seq = 0, clockWarningCount = 0,
       strictMonotonicityChecks = True, quietMode = False\<rparr> 1 5 (constClock 5)
     = (Inr 9007199254761472, \<lparr>lastID = 9007199254761472, node = 0, time = 5, seq = 0,
       clockWarningCount = 0, strictMonotonicityChecks = True, quietMode = False\<rparr>)"
    by (simp add: Generate_def generateInternal_def packID_def layout_defs int64_defs)
  have r: "successes (fst (run \<lparr>lastID = 0, node = 0, time = 0, seq = 0, clockWarningCount = 0,
       strictMonotonicityChecks = True, quietMode = False\<rparr>
       [CallGenerate 1 5 (constClock 5), CallGenerate 0 5 (constClock 5),
        CallGenerate 1 5 (constClock 5)])) = [9007199254761472, 9007199254761474]"
    by (simp add: Generate_def generateInternal_def packID_def layout_defs int64_defs)
  show ?thesis
    using g r C1_strictly_increasing[of
       "\<lparr>lastID = 0, node = 0, time = 0, seq = 0, clockWarningCount = 0,
         strictMonotonicityChecks = True, quietMode = False\<rparr>"
       "[CallGenerate 1 5 (constClock 5), CallGenerate 0 5 (constClock 5),
         CallGenerate 1 5 (constClock 5)]"
       1 5 "constClock 5" 9007199254761472
       "\<lparr>lastID = 9007199254761472, node = 0, time = 5, seq = 0,
         clockWarningCount = 0, strictMonotonicityChecks = True, quietMode = False\<rparr>"]
    by (simp add: LastID_def)
qed

section \<open>The monotonicity check\<close>

lemma inv_new:
  assumes "NewNode nodeID options = Inr n"
  shows "inv_Node n"
  using NewNode_fresh[OF assms] by (simp add: inv_Node_def layout_defs)

text \<open>One pass through generateInternal from a state satisfying the invariant.\<close>

lemma inv_generateInternal:
  assumes i: "inv_Node n"
    and g: "generateInternal (n\<lparr>clockWarningCount := w\<rparr>\<lparr>seq := sq\<rparr>) idType now = (r, n')"
    and c: "idType \<le> TypeMax"
    and adv: "(now = time n \<and> sq = add64 (seq n) 1 AND SeqMax \<and> sq \<noteq> 0) \<or> (time n < now \<and> sq = 0)"
  shows "inv_Node n'"
    and "Type (lastID n) \<le> int idType \<Longrightarrow>
           r \<noteq> Inl ErrMonotonicityViolation \<and> (\<forall>j. r = Inr j \<longrightarrow> lastID n < j)"
proof -
  let ?m = "n\<lparr>clockWarningCount := w\<rparr>\<lparr>seq := sq\<rparr>"
  have nd: "0 \<le> node n" "node n \<le> NodeMax" and sq0: "0 \<le> seq n" "seq n \<le> SeqMax"
    and t0: "0 \<le> time n"
    using i by (simp_all add: inv_Node_def)
  have sq: "0 \<le> sq" "sq \<le> SeqMax" and now0: "0 \<le> now"
    and adv': "time n < now \<or> (time n = now \<and> seq n < sq)"
    and pos: "0 < now \<or> 0 < sq"
    using adv seq_step[OF sq0] sq0 t0 by (auto simp: layout_defs split: if_splits)
  have last: "lastID n = 0 \<or> (\<exists>c t q. c \<le> TypeMax \<and> 0 \<le> t \<and> t \<le> TimestampMax \<and> 0 \<le> q \<and> q \<le> SeqMax
             \<and> lastID n = packID c t (node n) q
             \<and> (t < time n \<or> (t = time n \<and> q \<le> seq n)))"
    using i by (simp add: inv_Node_def)
  have gt: "lastID n < packID idType now (node n) sq"
    if le: "Type (lastID n) \<le> int idType" and nm: "now \<le> TimestampMax"
    using last
  proof
    assume "lastID n = 0"
    then show ?thesis
      using packID_pos[OF c now0 nm nd sq pos] by simp
  next
    assume "\<exists>c t q. c \<le> TypeMax \<and> 0 \<le> t \<and> t \<le> TimestampMax \<and> 0 \<le> q \<and> q \<le> SeqMax
             \<and> lastID n = packID c t (node n) q
             \<and> (t < time n \<or> (t = time n \<and> q \<le> seq n))"
    then obtain c0 t q where r: "c0 \<le> TypeMax" "0 \<le> t" "t \<le> TimestampMax" "0 \<le> q" "q \<le> SeqMax"
      and l: "lastID n = packID c0 t (node n) q"
      and o: "t < time n \<or> (t = time n \<and> q \<le> seq n)"
      by blast
    have "Type (lastID n) = int c0"
      unfolding l by (rule fields_of_packID(1)[OF r(1,2,3) nd r(4,5)])
    then have cc: "c0 \<le> idType" using le by simp
    have "t < now \<or> (t = now \<and> q < sq)" using o adv' by auto
    from packID_mono[OF cc c r(2) nm nd r(4,5) sq this] show ?thesis unfolding l .
  qed
  show "inv_Node n'"
  proof (cases r)
    case (Inl e)
    have f: "node n' = node n" "seq n' = sq" "time n' = now" "lastID n' = lastID n"
      using generateInternal_result(1,2,3)[OF g] generateInternal_result(7)[OF g Inl] by simp_all
    have "lastID n = 0 \<or> (\<exists>c t q. c \<le> TypeMax \<and> 0 \<le> t \<and> t \<le> TimestampMax \<and> 0 \<le> q \<and> q \<le> SeqMax
             \<and> lastID n = packID c t (node n) q
             \<and> (t < now \<or> (t = now \<and> q \<le> sq)))"
      using last
    proof
      assume "lastID n = 0"
      then show ?thesis ..
    next
      assume "\<exists>c t q. c \<le> TypeMax \<and> 0 \<le> t \<and> t \<le> TimestampMax \<and> 0 \<le> q \<and> q \<le> SeqMax
             \<and> lastID n = packID c t (node n) q
             \<and> (t < time n \<or> (t = time n \<and> q \<le> seq n))"
      then obtain c0 t q where r: "c0 \<le> TypeMax" "0 \<le> t" "t \<le> TimestampMax" "0 \<le> q" "q \<le> SeqMax"
        "lastID n = packID c0 t (node n) q"
        and o: "t < time n \<or> (t = time n \<and> q \<le> seq n)"
        by blast
      have "t < now \<or> (t = now \<and> q \<le> sq)" using o adv' by auto
      with r show ?thesis by blast
    qed
    then show ?thesis
      unfolding inv_Node_def f using nd sq now0 by simp
  next
    case (Inr j)
    have f: "node n' = node n" "seq n' = sq" "time n' = now"
      "lastID n' = packID idType now (node n) sq" "now \<le> TimestampMax"
      using generateInternal_result(1,2,3)[OF g] generateInternal_result(8)[OF g Inr] by simp_all
    show ?thesis
      unfolding inv_Node_def f using nd sq now0 c f(5) by auto
  qed
  show "r \<noteq> Inl ErrMonotonicityViolation \<and> (\<forall>j. r = Inr j \<longrightarrow> lastID n < j)"
    if le: "Type (lastID n) \<le> int idType"
  proof (cases "now > TimestampMax")
    case True
    then have "r = Inl ErrTimestampOverflow" using g by (simp add: generateInternal_def Let_def)
    then show ?thesis by simp
  next
    case False
    then have "lastID n < packID idType now (node n) sq" using gt[OF le] by simp
    then show ?thesis using g False by (auto simp: generateInternal_def Let_def split: if_splits)
  qed
qed

lemma inv_Generate:
  assumes "inv_Node n" "Generate n idType now0 fresh = (r, n')"
    "r \<noteq> Inl (ErrClockNotAdvancing ClockStuck)"
  shows "inv_Node n'"
proof -
  from Generate_cases[OF assms(2)] assms(3)
  consider "n' = n"
    | w now sq where "idType \<le> TypeMax"
        "generateInternal (n\<lparr>clockWarningCount := w\<rparr>\<lparr>seq := sq\<rparr>) idType now = (r, n')"
        "(now = time n \<and> sq = add64 (seq n) 1 AND SeqMax \<and> sq \<noteq> 0) \<or> (time n < now \<and> sq = 0)"
    by blast
  then show ?thesis
  proof cases
    case 1
    then show ?thesis using assms(1) by simp
  next
    case 2
    from inv_generateInternal(1)[OF assms(1) 2(2) 2(1) 2(3)] show ?thesis .
  qed
qed

lemma reachable_inv: "reachable n \<Longrightarrow> inv_Node n"
  by (induction rule: reachable.induct) (auto intro: inv_new inv_Generate)

lemma Generate_no_violation:
  assumes "inv_Node n" "Type (lastID n) \<le> int idType" "Generate n idType now0 fresh = (r, n')"
  shows "r \<noteq> Inl ErrMonotonicityViolation \<and> (\<forall>j. r = Inr j \<longrightarrow> lastID n < j)"
proof -
  from Generate_cases[OF assms(3)]
  consider "r = Inl ErrInvalIDType" | "r = Inl (ErrClockNotAdvancing ClockStuck)"
    | w now sq where "idType \<le> TypeMax"
        "generateInternal (n\<lparr>clockWarningCount := w\<rparr>\<lparr>seq := sq\<rparr>) idType now = (r, n')"
        "(now = time n \<and> sq = add64 (seq n) 1 AND SeqMax \<and> sq \<noteq> 0) \<or> (time n < now \<and> sq = 0)"
    by blast
  then show ?thesis
  proof cases
    case 1
    then show ?thesis by simp
  next
    case 2
    then show ?thesis by simp
  next
    case 3
    from inv_generateInternal(2)[OF assms(1) 3(2) 3(1) 3(3) assms(2)] show ?thesis .
  qed
qed

text \<open>
  C6 as stated fails: the category occupies the most significant bits, so after an
  identifier of category 1 a call with category 0 at a later millisecond packs a smaller
  value and fails with \<open>ErrMonotonicityViolation\<close>, on a state reached from
  construction by one successful \<open>Generate\<close>. The option's own comment says so:
  "If you want to allow different ID types, set to false."
\<close>

theorem C6_counterexample:
  "NewNode 0 [] = Inr \<lparr>lastID = 0, node = 0, time = 0, seq = 0, clockWarningCount = 0,
       strictMonotonicityChecks = True, quietMode = False\<rparr>
   \<and> strictMonotonicityChecks \<lparr>lastID = 0, node = 0, time = 0, seq = 0, clockWarningCount = 0,
       strictMonotonicityChecks = True, quietMode = False\<rparr>
   \<and> Generate \<lparr>lastID = 0, node = 0, time = 0, seq = 0, clockWarningCount = 0,
       strictMonotonicityChecks = True, quietMode = False\<rparr> 1 5 (constClock 5)
     = (Inr 9007199254761472, \<lparr>lastID = 9007199254761472, node = 0, time = 5, seq = 0, clockWarningCount = 0,
       strictMonotonicityChecks = True, quietMode = False\<rparr>)
   \<and> reachable \<lparr>lastID = 9007199254761472, node = 0, time = 5, seq = 0, clockWarningCount = 0,
       strictMonotonicityChecks = True, quietMode = False\<rparr>
   \<and> fst (Generate \<lparr>lastID = 9007199254761472, node = 0, time = 5, seq = 0, clockWarningCount = 0,
       strictMonotonicityChecks = True, quietMode = False\<rparr> 0 6 (constClock 6)) = Inl ErrMonotonicityViolation
   \<and> \<not> lastID \<lparr>lastID = 9007199254761472, node = 0, time = 5, seq = 0, clockWarningCount = 0,
       strictMonotonicityChecks = True, quietMode = False\<rparr> < packID 0 6 0 0"
proof -
  have new: "NewNode 0 [] = Inr \<lparr>lastID = 0, node = 0, time = 0, seq = 0, clockWarningCount = 0,
       strictMonotonicityChecks = True, quietMode = False\<rparr>"
    by (simp add: NewNode_def layout_defs)
  have g: "Generate \<lparr>lastID = 0, node = 0, time = 0, seq = 0, clockWarningCount = 0,
       strictMonotonicityChecks = True, quietMode = False\<rparr> 1 5 (constClock 5)
     = (Inr 9007199254761472, \<lparr>lastID = 9007199254761472, node = 0, time = 5, seq = 0, clockWarningCount = 0,
       strictMonotonicityChecks = True, quietMode = False\<rparr>)"
    by (simp add: Generate_def generateInternal_def packID_def layout_defs int64_defs)
  have r: "reachable \<lparr>lastID = 9007199254761472, node = 0, time = 5, seq = 0, clockWarningCount = 0,
       strictMonotonicityChecks = True, quietMode = False\<rparr>"
    by (rule reachable_gen[OF reachable_new[OF new] g]) simp
  have v: "fst (Generate \<lparr>lastID = 9007199254761472, node = 0, time = 5, seq = 0, clockWarningCount = 0,
       strictMonotonicityChecks = True, quietMode = False\<rparr> 0 6 (constClock 6)) = Inl ErrMonotonicityViolation"
    by (simp add: Generate_def generateInternal_def packID_def layout_defs int64_defs)
  have p: "\<not> lastID \<lparr>lastID = 9007199254761472, node = 0, time = 5, seq = 0, clockWarningCount = 0,
       strictMonotonicityChecks = True, quietMode = False\<rparr> < packID 0 6 0 0"
    by (simp add: packID_def layout_defs int64_defs)
  show ?thesis using new g r v p by simp
qed

text \<open>
  C6, amended: on every state reached from construction through \<open>Generate\<close> calls
  none of which failed on a stuck clock, a \<open>Generate\<close> call whose category is not
  smaller than the category of the last identifier never fails with
  \<open>ErrMonotonicityViolation\<close>, and every identifier it returns is strictly greater than
  the last identifier.
\<close>

theorem C6_no_violation_when_category_not_lowered:
  assumes "reachable n" "Type (lastID n) \<le> int idType"
  shows "fst (Generate n idType now0 fresh) \<noteq> Inl ErrMonotonicityViolation
       \<and> (\<forall>j. fst (Generate n idType now0 fresh) = Inr j \<longrightarrow> lastID n < j)"
  using Generate_no_violation[OF reachable_inv[OF assms(1)] assms(2), of now0 fresh
      "fst (Generate n idType now0 fresh)" "snd (Generate n idType now0 fresh)"]
  by simp

theorem C6_no_violation_when_category_not_lowered_witness:
  "reachable \<lparr>lastID = 9007199254761472, node = 0, time = 5, seq = 0, clockWarningCount = 0,
       strictMonotonicityChecks = True, quietMode = False\<rparr>
   \<and> Type (lastID \<lparr>lastID = 9007199254761472, node = 0, time = 5, seq = 0, clockWarningCount = 0,
       strictMonotonicityChecks = True, quietMode = False\<rparr>) \<le> int 1
   \<and> fst (Generate \<lparr>lastID = 9007199254761472, node = 0, time = 5, seq = 0, clockWarningCount = 0,
       strictMonotonicityChecks = True, quietMode = False\<rparr> 1 6 (constClock 6)) = Inr 9007199254765568
   \<and> fst (Generate \<lparr>lastID = 9007199254761472, node = 0, time = 5, seq = 0, clockWarningCount = 0,
       strictMonotonicityChecks = True, quietMode = False\<rparr> 1 6 (constClock 6)) \<noteq> Inl ErrMonotonicityViolation
   \<and> lastID \<lparr>lastID = 9007199254761472, node = 0, time = 5, seq = 0, clockWarningCount = 0,
       strictMonotonicityChecks = True, quietMode = False\<rparr> < 9007199254765568"
proof -
  have new: "NewNode 0 [] = Inr \<lparr>lastID = 0, node = 0, time = 0, seq = 0, clockWarningCount = 0,
       strictMonotonicityChecks = True, quietMode = False\<rparr>"
    by (simp add: NewNode_def layout_defs)
  have g: "Generate \<lparr>lastID = 0, node = 0, time = 0, seq = 0, clockWarningCount = 0,
       strictMonotonicityChecks = True, quietMode = False\<rparr> 1 5 (constClock 5)
     = (Inr 9007199254761472, \<lparr>lastID = 9007199254761472, node = 0, time = 5, seq = 0, clockWarningCount = 0,
       strictMonotonicityChecks = True, quietMode = False\<rparr>)"
    by (simp add: Generate_def generateInternal_def packID_def layout_defs int64_defs)
  have r: "reachable \<lparr>lastID = 9007199254761472, node = 0, time = 5, seq = 0, clockWarningCount = 0,
       strictMonotonicityChecks = True, quietMode = False\<rparr>"
    by (rule reachable_gen[OF reachable_new[OF new] g]) simp
  have t: "Type (lastID \<lparr>lastID = 9007199254761472, node = 0, time = 5, seq = 0, clockWarningCount = 0,
       strictMonotonicityChecks = True, quietMode = False\<rparr>) \<le> int 1"
    by (simp add: Type_def layout_defs)
  have v: "fst (Generate \<lparr>lastID = 9007199254761472, node = 0, time = 5, seq = 0, clockWarningCount = 0,
       strictMonotonicityChecks = True, quietMode = False\<rparr> 1 6 (constClock 6)) = Inr 9007199254765568"
    by (simp add: Generate_def generateInternal_def packID_def layout_defs int64_defs)
  show ?thesis
    using r t v C6_no_violation_when_category_not_lowered[OF r t, of 6 "constClock 6"]
    by simp
qed

section \<open>The state after a failed call\<close>

lemma generateInternal_Inl:
  assumes "generateInternal m idType now = (Inl e, n')"
  shows "lastID n' = lastID m" "node n' = node m"
    "strictMonotonicityChecks n' = strictMonotonicityChecks m" "quietMode n' = quietMode m"
    "time n' = now" "e = ErrTimestampOverflow \<or> e = ErrMonotonicityViolation"
  using generateInternal_result(1,3,4,5)[OF assms] generateInternal_result(7)[OF assms refl]
  by simp_all

text \<open>
  C5 as stated fails: \<open>generateInternal\<close> stores the timestamp before it checks it
  and both entry points update the sequence before they call it ("Assumes sequence
  management and time advancement have been handled by the caller", line 247). A call
  that fails with the timestamp overflow, here at 2^41 milliseconds after the epoch, has
  already replaced the last timestamp offset, and has reset the sequence when the
  millisecond was new.
\<close>

theorem C5_counterexample:
  "epochTime = 1735718400000000000
   \<and> Milliseconds (Sub (UTC 3934741655552000000) epochTime) = 2199023255552
   \<and> Milliseconds (Sub (UTC 1735718400005000000) epochTime) = 5
   \<and> GenerateWithTimestamp \<lparr>lastID = 0, node = 0, time = 0, seq = 0, clockWarningCount = 0,
       strictMonotonicityChecks = True, quietMode = False\<rparr> 0 3934741655552000000
     = (Inl ErrTimestampOverflow, \<lparr>lastID = 0, node = 0, time = 2199023255552, seq = 0, clockWarningCount = 0,
       strictMonotonicityChecks = True, quietMode = False\<rparr>)
   \<and> Generate \<lparr>lastID = 0, node = 0, time = 0, seq = 0, clockWarningCount = 0,
       strictMonotonicityChecks = True, quietMode = False\<rparr> 0 2199023255552 (constClock 2199023255552)
     = (Inl ErrTimestampOverflow, \<lparr>lastID = 0, node = 0, time = 2199023255552, seq = 0, clockWarningCount = 0,
       strictMonotonicityChecks = True, quietMode = False\<rparr>)
   \<and> time \<lparr>lastID = 0, node = 0, time = 2199023255552, seq = 0, clockWarningCount = 0,
       strictMonotonicityChecks = True, quietMode = False\<rparr> \<noteq> time \<lparr>lastID = 0, node = 0, time = 0, seq = 0, clockWarningCount = 0,
       strictMonotonicityChecks = True, quietMode = False\<rparr>
   \<and> snd (run \<lparr>lastID = 0, node = 0, time = 0, seq = 0, clockWarningCount = 0,
       strictMonotonicityChecks = True, quietMode = False\<rparr> [CallGenerateWithTimestamp 0 1735718400005000000, CallGenerateWithTimestamp 0 1735718400005000000])
     = \<lparr>lastID = 20481, node = 0, time = 5, seq = 1, clockWarningCount = 0,
       strictMonotonicityChecks = True, quietMode = False\<rparr>
   \<and> GenerateWithTimestamp \<lparr>lastID = 20481, node = 0, time = 5, seq = 1, clockWarningCount = 0,
       strictMonotonicityChecks = True, quietMode = False\<rparr> 0 3934741655552000000
     = (Inl ErrTimestampOverflow, \<lparr>lastID = 20481, node = 0, time = 2199023255552, seq = 0, clockWarningCount = 0,
       strictMonotonicityChecks = True, quietMode = False\<rparr>)
   \<and> seq \<lparr>lastID = 20481, node = 0, time = 2199023255552, seq = 0, clockWarningCount = 0,
       strictMonotonicityChecks = True, quietMode = False\<rparr> \<noteq> seq \<lparr>lastID = 20481, node = 0, time = 5, seq = 1, clockWarningCount = 0,
       strictMonotonicityChecks = True, quietMode = False\<rparr>"
  by (simp add: GenerateWithTimestamp_def Generate_def generateInternal_def packID_def
      constClock_def time_defs layout_defs int64_defs)

text \<open>
  C5, amended: whenever \<open>GenerateWithTimestamp\<close> or \<open>Generate\<close> returns an error,
  the last identifier, the node identity and the two flags are exactly as before the
  call. The invalid-category error leaves the whole state unchanged; after the timestamp
  overflow and the monotonicity violation the last timestamp offset is the offset of the
  failed call (for \<open>Generate\<close>, an offset not below the one before). The errors
  returned are the invalid category, the exhausted sequence (\<open>GenerateWithTimestamp\<close>
  only), the stuck clock (\<open>Generate\<close> only), the timestamp overflow and the
  monotonicity violation.
\<close>

theorem C5_errors_keep_last_identifier:
  "(GenerateWithTimestamp n idType timestamp = (Inl e, n') \<longrightarrow>
      lastID n' = lastID n \<and> node n' = node n
      \<and> strictMonotonicityChecks n' = strictMonotonicityChecks n \<and> quietMode n' = quietMode n
      \<and> (e = ErrInvalIDType \<longrightarrow> n' = n)
      \<and> (e = ErrTimestampOverflow \<or> e = ErrMonotonicityViolation \<longrightarrow>
            time n' = Milliseconds (Sub (UTC timestamp) epochTime))
      \<and> e \<in> {ErrInvalIDType, ErrClockNotAdvancing SequenceExhausted, ErrTimestampOverflow,
               ErrMonotonicityViolation})
   \<and> (Generate n idType now0 fresh = (Inl e, n') \<longrightarrow>
      lastID n' = lastID n \<and> node n' = node n
      \<and> strictMonotonicityChecks n' = strictMonotonicityChecks n \<and> quietMode n' = quietMode n
      \<and> (e = ErrInvalIDType \<longrightarrow> n' = n)
      \<and> (e = ErrTimestampOverflow \<or> e = ErrMonotonicityViolation \<longrightarrow> time n \<le> time n')
      \<and> e \<in> {ErrInvalIDType, ErrClockNotAdvancing ClockStuck, ErrTimestampOverflow,
               ErrMonotonicityViolation})"
proof -
  have A: "lastID n' = lastID n \<and> node n' = node n
      \<and> strictMonotonicityChecks n' = strictMonotonicityChecks n \<and> quietMode n' = quietMode n
      \<and> (e = ErrInvalIDType \<longrightarrow> n' = n)
      \<and> (e = ErrTimestampOverflow \<or> e = ErrMonotonicityViolation \<longrightarrow>
            time n' = Milliseconds (Sub (UTC timestamp) epochTime))
      \<and> e \<in> {ErrInvalIDType, ErrClockNotAdvancing SequenceExhausted, ErrTimestampOverflow,
               ErrMonotonicityViolation}"
    if a: "GenerateWithTimestamp n idType timestamp = (Inl e, n')"
  proof -
    from GenerateWithTimestamp_cases[OF a refl]
    consider "e = ErrInvalIDType" "n' = n"
      | "e = ErrClockNotAdvancing SequenceExhausted" "n' = n\<lparr>seq := 0\<rparr>"
      | sq where "generateInternal (n\<lparr>seq := sq\<rparr>) idType
                    (Milliseconds (Sub (UTC timestamp) epochTime)) = (Inl e, n')"
      by blast
    then show ?thesis
    proof cases
      case 1
      then show ?thesis by simp
    next
      case 2
      then show ?thesis by simp
    next
      case 3
      from generateInternal_Inl[OF 3] show ?thesis by auto
    qed
  qed
  have B: "lastID n' = lastID n \<and> node n' = node n
      \<and> strictMonotonicityChecks n' = strictMonotonicityChecks n \<and> quietMode n' = quietMode n
      \<and> (e = ErrInvalIDType \<longrightarrow> n' = n)
      \<and> (e = ErrTimestampOverflow \<or> e = ErrMonotonicityViolation \<longrightarrow> time n \<le> time n')
      \<and> e \<in> {ErrInvalIDType, ErrClockNotAdvancing ClockStuck, ErrTimestampOverflow,
               ErrMonotonicityViolation}"
    if a: "Generate n idType now0 fresh = (Inl e, n')"
  proof -
    from Generate_cases[OF a]
    consider "e = ErrInvalIDType" "n' = n"
      | w where "e = ErrClockNotAdvancing ClockStuck" "n' = n\<lparr>clockWarningCount := w\<rparr>\<lparr>seq := 0\<rparr>"
      | w now sq where "generateInternal (n\<lparr>clockWarningCount := w\<rparr>\<lparr>seq := sq\<rparr>) idType now = (Inl e, n')"
          "now = time n \<or> time n < now"
      by blast
    then show ?thesis
    proof cases
      case 1
      then show ?thesis by simp
    next
      case 2
      then show ?thesis by simp
    next
      case 3
      from generateInternal_Inl[OF 3(1)] 3(2) show ?thesis by auto
    qed
  qed
  show ?thesis
    by (rule conjI; rule impI) (erule A, erule B)
qed

theorem C5_errors_keep_last_identifier_witness:
  "GenerateWithTimestamp \<lparr>lastID = 20481, node = 0, time = 5, seq = 1, clockWarningCount = 0,
       strictMonotonicityChecks = True, quietMode = False\<rparr> 0 3934741655552000000
     = (Inl ErrTimestampOverflow, \<lparr>lastID = 20481, node = 0, time = 2199023255552, seq = 0, clockWarningCount = 0,
       strictMonotonicityChecks = True, quietMode = False\<rparr>)
   \<and> Generate \<lparr>lastID = 20481, node = 0, time = 5, seq = 1, clockWarningCount = 0,
       strictMonotonicityChecks = True, quietMode = False\<rparr> 0 2199023255552 (constClock 2199023255552)
     = (Inl ErrTimestampOverflow, \<lparr>lastID = 20481, node = 0, time = 2199023255552, seq = 0, clockWarningCount = 0,
       strictMonotonicityChecks = True, quietMode = False\<rparr>)
   \<and> lastID \<lparr>lastID = 20481, node = 0, time = 2199023255552, seq = 0, clockWarningCount = 0,
       strictMonotonicityChecks = True, quietMode = False\<rparr> = lastID \<lparr>lastID = 20481, node = 0, time = 5, seq = 1, clockWarningCount = 0,
       strictMonotonicityChecks = True, quietMode = False\<rparr>
   \<and> time \<lparr>lastID = 20481, node = 0, time = 2199023255552, seq = 0, clockWarningCount = 0,
       strictMonotonicityChecks = True, quietMode = False\<rparr> = 2199023255552
   \<and> time \<lparr>lastID = 20481, node = 0, time = 5, seq = 1, clockWarningCount = 0,
       strictMonotonicityChecks = True, quietMode = False\<rparr> \<le> time \<lparr>lastID = 20481, node = 0, time = 2199023255552, seq = 0, clockWarningCount = 0,
       strictMonotonicityChecks = True, quietMode = False\<rparr>"
proof -
  have a: "GenerateWithTimestamp \<lparr>lastID = 20481, node = 0, time = 5, seq = 1, clockWarningCount = 0,
       strictMonotonicityChecks = True, quietMode = False\<rparr> 0 3934741655552000000
     = (Inl ErrTimestampOverflow, \<lparr>lastID = 20481, node = 0, time = 2199023255552, seq = 0, clockWarningCount = 0,
       strictMonotonicityChecks = True, quietMode = False\<rparr>)"
    by (simp add: GenerateWithTimestamp_def generateInternal_def time_defs layout_defs)
  have b: "Generate \<lparr>lastID = 20481, node = 0, time = 5, seq = 1, clockWarningCount = 0,
       strictMonotonicityChecks = True, quietMode = False\<rparr> 0 2199023255552 (constClock 2199023255552)
     = (Inl ErrTimestampOverflow, \<lparr>lastID = 20481, node = 0, time = 2199023255552, seq = 0, clockWarningCount = 0,
       strictMonotonicityChecks = True, quietMode = False\<rparr>)"
    by (simp add: Generate_def generateInternal_def constClock_def layout_defs)
  show ?thesis
    using a b C5_errors_keep_last_identifier[of
       "\<lparr>lastID = 20481, node = 0, time = 5, seq = 1, clockWarningCount = 0,
       strictMonotonicityChecks = True, quietMode = False\<rparr>" 0 3934741655552000000 ErrTimestampOverflow
       "\<lparr>lastID = 20481, node = 0, time = 2199023255552, seq = 0, clockWarningCount = 0,
       strictMonotonicityChecks = True, quietMode = False\<rparr>" 2199023255552 "constClock 2199023255552"]
    by (simp add: time_defs)
qed

section \<open>Sequence exhaustion at a fixed timestamp\<close>

lemma run_append:
  "run n (xs @ ys) = (fst (run n xs) @ fst (run (snd (run n xs)) ys), snd (run (snd (run n xs)) ys))"
  by (induction xs arbitrary: n) (simp_all add: split_beta Let_def)

lemma GWT_next_in_ms:
  assumes "time n = now" "seq n = j" "lastID n = packID idType now (node n) j"
    "idType \<le> TypeMax" "0 \<le> now" "now \<le> TimestampMax" "0 \<le> node n" "node n \<le> NodeMax"
    "0 \<le> j" "j < SeqMax" "Milliseconds (Sub (UTC ts) epochTime) = now"
  shows "GenerateWithTimestamp n idType ts
         = (Inr (packID idType now (node n) (j + 1)),
            n\<lparr>seq := j + 1, time := now, lastID := packID idType now (node n) (j + 1)\<rparr>)"
proof -
  have s: "add64 (seq n) 1 AND SeqMax = j + 1"
    using seq_step[of "seq n"] assms(2,9,10) by simp
  have nz: "j + 1 \<noteq> 0" using assms(9) by simp
  have "packID idType now (node n) j < packID idType now (node n) (j + 1)"
    using assms by (intro packID_mono) simp_all
  then have lt: "\<not> packID idType now (node n) (j + 1) \<le> lastID n"
    using assms(3) by simp
  show ?thesis
    using assms(1,4,6) nz lt
    by (simp add: GenerateWithTimestamp_def generateInternal_def s Let_def assms(11))
qed

lemma GWT_repeat_in_ms:
  assumes "Milliseconds (Sub (UTC ts) epochTime) = now"
  shows "time n = now \<Longrightarrow> seq n = j \<Longrightarrow> lastID n = packID idType now (node n) j \<Longrightarrow>
    idType \<le> TypeMax \<Longrightarrow> 0 \<le> now \<Longrightarrow> now \<le> TimestampMax \<Longrightarrow> 0 \<le> node n \<Longrightarrow> node n \<le> NodeMax \<Longrightarrow>
    0 \<le> j \<Longrightarrow> j + int m \<le> SeqMax \<Longrightarrow>
    fst (run n (replicate m (CallGenerateWithTimestamp idType ts)))
           = map (\<lambda>k. Inr (packID idType now (node n) (j + 1 + int k))) [0..<m]
       \<and> time (snd (run n (replicate m (CallGenerateWithTimestamp idType ts)))) = now
       \<and> seq (snd (run n (replicate m (CallGenerateWithTimestamp idType ts)))) = j + int m
       \<and> node (snd (run n (replicate m (CallGenerateWithTimestamp idType ts)))) = node n"
proof (induction m arbitrary: n j)
  case 0
  then show ?case by simp
next
  case (Suc m)
  let ?n' = "n\<lparr>seq := j + 1, time := now, lastID := packID idType now (node n) (j + 1)\<rparr>"
  have jlt: "j < SeqMax" using Suc.prems(10) by simp
  have g: "GenerateWithTimestamp n idType ts = (Inr (packID idType now (node n) (j + 1)), ?n')"
    by (rule GWT_next_in_ms[OF Suc.prems(1-9) jlt assms])
  have ih: "fst (run ?n' (replicate m (CallGenerateWithTimestamp idType ts)))
           = map (\<lambda>k. Inr (packID idType now (node ?n') (j + 1 + 1 + int k))) [0..<m]
       \<and> time (snd (run ?n' (replicate m (CallGenerateWithTimestamp idType ts)))) = now
       \<and> seq (snd (run ?n' (replicate m (CallGenerateWithTimestamp idType ts)))) = j + 1 + int m
       \<and> node (snd (run ?n' (replicate m (CallGenerateWithTimestamp idType ts)))) = node ?n'"
    using Suc.prems by (intro Suc.IH) simp_all
  have up: "[0..<Suc m] = 0 # map Suc [0..<m]"
    by (simp add: upt_conv_Cons map_Suc_upt del: upt_Suc)
  show ?case
    unfolding up using ih by (simp add: g split_beta Let_def comp_def add.assoc)
qed

lemma GWT_fresh_later_state:
  assumes "NewNode nodeID options = Inr n" "idType \<le> TypeMax" "0 < now" "now \<le> TimestampMax"
    "Milliseconds (Sub (UTC ts) epochTime) = now"
  shows "GenerateWithTimestamp n idType ts
         = (Inr (packID idType now (node n) 0),
            n\<lparr>seq := 0, time := now, lastID := packID idType now (node n) 0\<rparr>)"
proof -
  note f = NewNode_fresh[OF assms(1)]
  have "0 < packID idType now (node n) 0"
    using assms(2,3,4) f(5,6) by (intro packID_pos) (simp_all add: layout_defs)
  then show ?thesis
    using assms(2,3,4)
    by (simp add: GenerateWithTimestamp_def generateInternal_def f(1,3,4) Let_def assms(5))
qed

lemma GWT_exhausted:
  assumes "time n = now" "seq n = SeqMax" "idType \<le> TypeMax"
    "Milliseconds (Sub (UTC ts) epochTime) = now"
  shows "fst (GenerateWithTimestamp n idType ts) = Inl (ErrClockNotAdvancing SequenceExhausted)"
proof -
  have "add64 (seq n) 1 AND SeqMax = 0"
    using seq_step[of "seq n"] assms(2) by (simp add: layout_defs)
  then show ?thesis
    using assms(1,3) by (simp add: GenerateWithTimestamp_def Let_def assms(4))
qed

lemma GWT_fill_ms:
  assumes "NewNode nodeID options = Inr n" "idType \<le> TypeMax" "0 < now" "now \<le> TimestampMax"
    "int m = SeqMax" "Milliseconds (Sub (UTC ts) epochTime) = now"
  shows "fst (run n (CallGenerateWithTimestamp idType ts
               # (replicate m (CallGenerateWithTimestamp idType ts)
                  @ [CallGenerateWithTimestamp idType ts])))
           = map (\<lambda>k. Inr (packID idType now nodeID (int k))) [0..<Suc m]
             @ [Inl (ErrClockNotAdvancing SequenceExhausted)]"
proof -
  let ?c = "CallGenerateWithTimestamp idType ts"
  let ?n1 = "n\<lparr>seq := 0, time := now, lastID := packID idType now (node n) 0\<rparr>"
  note f = NewNode_fresh[OF assms(1)]
  have now0: "0 \<le> now" using assms(3) by simp
  have g1: "GenerateWithTimestamp n idType ts = (Inr (packID idType now (node n) 0), ?n1)"
    by (rule GWT_fresh_later_state[OF assms(1-4,6)])
  have mid: "fst (run ?n1 (replicate m ?c))
           = map (\<lambda>k. Inr (packID idType now (node ?n1) (0 + 1 + int k))) [0..<m]
       \<and> time (snd (run ?n1 (replicate m ?c))) = now
       \<and> seq (snd (run ?n1 (replicate m ?c))) = 0 + int m
       \<and> node (snd (run ?n1 (replicate m ?c))) = node ?n1"
    using assms(2,4,5) now0 f(5,6) by (intro GWT_repeat_in_ms[OF assms(6)]) simp_all
  let ?n2 = "snd (run ?n1 (replicate m ?c))"
  have last: "fst (GenerateWithTimestamp ?n2 idType ts) = Inl (ErrClockNotAdvancing SequenceExhausted)"
    using mid assms(2,5,6) by (intro GWT_exhausted) simp_all
  have up: "[0..<Suc m] = 0 # map Suc [0..<m]"
    by (simp add: upt_conv_Cons map_Suc_upt del: upt_Suc)
  have "fst (run n (?c # (replicate m ?c @ [?c])))
        = Inr (packID idType now (node n) 0)
          # (fst (run ?n1 (replicate m ?c)) @ [fst (GenerateWithTimestamp ?n2 idType ts)])"
    by (simp add: g1 run_append split_beta Let_def)
  also have "\<dots> = map (\<lambda>k. Inr (packID idType now nodeID (int k))) [0..<Suc m]
             @ [Inl (ErrClockNotAdvancing SequenceExhausted)]"
    unfolding up using mid last by (simp add: f(2) comp_def add.commute)
  finally show ?thesis .
qed

lemma replicate_1025: "replicate 1025 x = x # (replicate 1023 x @ [x])"
proof -
  have "(1025::nat) = Suc (Suc 1023)" by simp
  then show ?thesis by (simp only: replicate_Suc replicate_append_same)
qed

text \<open>
  C7 as stated fails for some fixed timestamps. At the epoch itself, and at any
  timestamp less than one millisecond after it (line 230 truncates to whole
  milliseconds), the first call already takes the same-millisecond branch against the
  initial state, so the result of generation index 0 carries sequence 1; and at 2^41
  milliseconds after the epoch, beyond the 41-bit ceiling, the first call fails with the
  timestamp overflow.
\<close>

theorem C7_counterexample:
  "NewNode 0 [] = Inr \<lparr>lastID = 0, node = 0, time = 0, seq = 0, clockWarningCount = 0,
       strictMonotonicityChecks = True, quietMode = False\<rparr>
   \<and> epochTime = 1735718400000000000
   \<and> GenerateWithTimestamp \<lparr>lastID = 0, node = 0, time = 0, seq = 0, clockWarningCount = 0,
       strictMonotonicityChecks = True, quietMode = False\<rparr> 0 1735718400000000000
     = (Inr 1, \<lparr>lastID = 1, node = 0, time = 0, seq = 1, clockWarningCount = 0,
       strictMonotonicityChecks = True, quietMode = False\<rparr>)
   \<and> GenerateWithTimestamp \<lparr>lastID = 0, node = 0, time = 0, seq = 0, clockWarningCount = 0,
       strictMonotonicityChecks = True, quietMode = False\<rparr> 0 1735718400000500000
     = (Inr 1, \<lparr>lastID = 1, node = 0, time = 0, seq = 1, clockWarningCount = 0,
       strictMonotonicityChecks = True, quietMode = False\<rparr>)
   \<and> Seq 1 = 1
   \<and> Seq 1 \<noteq> 0
   \<and> Milliseconds (Sub (UTC 3934741655552000000) epochTime) = 2199023255552
   \<and> fst (GenerateWithTimestamp \<lparr>lastID = 0, node = 0, time = 0, seq = 0, clockWarningCount = 0,
       strictMonotonicityChecks = True, quietMode = False\<rparr> 0 3934741655552000000)
     = Inl ErrTimestampOverflow"
  by (simp add: NewNode_def GenerateWithTimestamp_def generateInternal_def packID_def Seq_def
      time_defs layout_defs int64_defs)

text \<open>
  C7, amended: on a fresh generator, 1025 calls of \<open>GenerateWithTimestamp\<close> with one
  fixed category in [0, 1023] and one fixed timestamp at least one millisecond and less
  than 2^41 milliseconds after the epoch: the first 1024 calls succeed, the result of
  generation index k is the packing of the timestamp's whole-millisecond offset with
  sequence k and its extracted sequence is k, and the 1025th call fails with
  \<open>ErrClockNotAdvancing\<close> for the exhausted sequence.
\<close>

theorem C7_sequence_exhaustion:
  assumes "NewNode nodeID options = Inr n" "idType \<le> 1023"
    "epochTime + 1000000 \<le> timestamp" "timestamp < epochTime + 2 ^ 41 * 1000000"
  shows "fst (run n (replicate 1025 (CallGenerateWithTimestamp idType timestamp)))
           = map (\<lambda>k. Inr (packID idType (Milliseconds (Sub (UTC timestamp) epochTime))
                              nodeID (int k))) [0..<1024]
             @ [Inl (ErrClockNotAdvancing SequenceExhausted)]
       \<and> (\<forall>k<1024. Seq (packID idType (Milliseconds (Sub (UTC timestamp) epochTime))
                           nodeID (int k)) = int k)"
proof -
  define now where "now = Milliseconds (Sub (UTC timestamp) epochTime)"
  note f = NewNode_fresh[OF assms(1)]
  have p: "0 < now" unfolding now_def by (rule offset_pos[OF assms(3)])
  have r: "idType \<le> TypeMax" "0 \<le> now" "now \<le> TimestampMax"
    using assms(2) p offset_le[OF assms(4)] by (simp_all add: now_def layout_defs)
  have m: "int 1023 = SeqMax" by (simp add: layout_defs)
  have s: "(1024::nat) = Suc 1023" by simp
  have A: "fst (run n (replicate 1025 (CallGenerateWithTimestamp idType timestamp)))
           = map (\<lambda>k. Inr (packID idType now nodeID (int k))) [0..<1024]
             @ [Inl (ErrClockNotAdvancing SequenceExhausted)]"
    unfolding replicate_1025 s
    by (rule GWT_fill_ms[OF assms(1) r(1) p r(3) m now_def[symmetric]])
  have B: "Seq (packID idType now nodeID (int k)) = int k" if "k < 1024" for k
    using that r f(2,5,6) by (intro fields_of_packID(4)) (simp_all add: layout_defs)
  from A B show ?thesis unfolding now_def by blast
qed

theorem C7_sequence_exhaustion_witness:
  "NewNode 0 [] = Inr \<lparr>lastID = 0, node = 0, time = 0, seq = 0, clockWarningCount = 0,
       strictMonotonicityChecks = True, quietMode = False\<rparr>
   \<and> (7::nat) \<le> 1023
   \<and> epochTime + 1000000 \<le> 1735718400005000000
   \<and> 1735718400005000000 < epochTime + 2 ^ 41 * 1000000
   \<and> Milliseconds (Sub (UTC 1735718400005000000) epochTime) = 5
   \<and> fst (run \<lparr>lastID = 0, node = 0, time = 0, seq = 0, clockWarningCount = 0,
       strictMonotonicityChecks = True, quietMode = False\<rparr>
         (replicate 1025 (CallGenerateWithTimestamp 7 1735718400005000000)))
           = map (\<lambda>k. Inr (packID 7 5 0 (int k))) [0..<1024]
             @ [Inl (ErrClockNotAdvancing SequenceExhausted)]
   \<and> Seq (packID 7 5 0 (int 1023)) = int 1023"
proof -
  have new: "NewNode 0 [] = Inr \<lparr>lastID = 0, node = 0, time = 0, seq = 0, clockWarningCount = 0,
       strictMonotonicityChecks = True, quietMode = False\<rparr>"
    by (simp add: NewNode_def layout_defs)
  have h2: "(7::nat) \<le> 1023" by simp
  have h3: "epochTime + 1000000 \<le> 1735718400005000000" by (simp add: epochTime_value)
  have h4: "1735718400005000000 < epochTime + 2 ^ 41 * 1000000" by (simp add: epochTime_value)
  have o: "Milliseconds (Sub (UTC 1735718400005000000) epochTime) = 5"
    by (simp add: time_defs)
  note t = C7_sequence_exhaustion[OF new h2 h3 h4, unfolded o]
  have a: "fst (run \<lparr>lastID = 0, node = 0, time = 0, seq = 0, clockWarningCount = 0,
       strictMonotonicityChecks = True, quietMode = False\<rparr>
         (replicate 1025 (CallGenerateWithTimestamp 7 1735718400005000000)))
           = map (\<lambda>k. Inr (packID 7 5 0 (int k))) [0..<1024]
             @ [Inl (ErrClockNotAdvancing SequenceExhausted)]"
    by (rule conjunct1[OF t])
  have "(1023::nat) < 1024" by simp
  with conjunct2[OF t] have b: "Seq (packID 7 5 0 (int 1023)) = int 1023"
    by blast
  show ?thesis
    by (rule conjI[OF new conjI[OF h2 conjI[OF h3 conjI[OF h4 conjI[OF o conjI[OF a b]]]]]])
qed

section \<open>A stuck clock followed by another call\<close>

text \<open>
  Why \<open>reachable\<close> leaves out the runs through a stuck clock. When the sequence wraps
  and the wait loop gives up, \<open>Generate\<close> returns with \<open>seq\<close> already reset to 0 (line
  187) while \<open>lastID\<close> still carries the sequence number 1023 of the same millisecond.
  If the clock still shows that millisecond at the next call, the sequence advances to 1
  and the packed value lies below \<open>lastID\<close>.
\<close>

lemma waitLoop_stuck:
  assumes "\<And>k. fresh k \<le> originalTime"
  shows "now \<le> originalTime
    \<Longrightarrow> waitLoop originalTime fresh now attempts = Inl (ErrClockNotAdvancing ClockStuck)"
proof (induction "maxRolloverWaitAttempts - attempts" arbitrary: now attempts)
  case 0
  then show ?case by (subst waitLoop.simps) (simp add: Let_def)
next
  case (Suc d)
  have f: "\<not> originalTime < fresh (attempts + 1)" "fresh (attempts + 1) \<le> originalTime"
    using assms[of "attempts + 1"] by simp_all
  have ih: "waitLoop originalTime fresh (fresh (attempts + 1)) (attempts + 1)
            = Inl (ErrClockNotAdvancing ClockStuck)"
    using Suc.hyps(2) f(2) by (intro Suc.hyps(1)) simp_all
  show ?case
    using Suc.prems f(1) ih by (subst waitLoop.simps) (simp add: Let_def)
qed

lemma Generate_fresh_later_state:
  assumes "NewNode nodeID options = Inr n" "idType \<le> TypeMax" "0 < now" "now \<le> TimestampMax"
  shows "Generate n idType now fresh
         = (Inr (packID idType now (node n) 0),
            n\<lparr>seq := 0, time := now, lastID := packID idType now (node n) 0\<rparr>)"
proof -
  note f = NewNode_fresh[OF assms(1)]
  have "0 < packID idType now (node n) 0"
    using assms(2,3,4) f(5,6) by (intro packID_pos) (simp_all add: layout_defs)
  then show ?thesis
    using assms(2,3,4)
    by (simp add: Generate_def generateInternal_def f(1,3,4) Let_def)
qed

lemma Generate_next_in_ms:
  assumes "time n = now" "seq n = j" "lastID n = packID idType now (node n) j"
    "idType \<le> TypeMax" "0 \<le> now" "now \<le> TimestampMax" "0 \<le> node n" "node n \<le> NodeMax"
    "0 \<le> j" "j < SeqMax"
  shows "Generate n idType now fresh
         = (Inr (packID idType now (node n) (j + 1)),
            n\<lparr>seq := j + 1, time := now, lastID := packID idType now (node n) (j + 1)\<rparr>)"
proof -
  have s: "add64 (seq n) 1 AND SeqMax = j + 1"
    using seq_step[of "seq n"] assms(2,9,10) by simp
  have nz: "j + 1 \<noteq> 0" using assms(9) by simp
  have "packID idType now (node n) j < packID idType now (node n) (j + 1)"
    using assms by (intro packID_mono) simp_all
  then have lt: "\<not> packID idType now (node n) (j + 1) \<le> lastID n"
    using assms(3) by simp
  show ?thesis
    using assms(1,4,6) nz lt
    by (simp add: Generate_def generateInternal_def s Let_def)
qed

lemma Generate_repeat_in_ms:
  assumes "time n = now" "seq n = j" "lastID n = packID idType now (node n) j"
    "idType \<le> TypeMax" "0 \<le> now" "now \<le> TimestampMax" "0 \<le> node n" "node n \<le> NodeMax"
    "0 \<le> j" "j + int m \<le> SeqMax"
  shows "fst (run n (replicate m (CallGenerate idType now fresh)))
           = map (\<lambda>k. Inr (packID idType now (node n) (j + 1 + int k))) [0..<m]
       \<and> snd (run n (replicate m (CallGenerate idType now fresh)))
           = n\<lparr>seq := j + int m, lastID := packID idType now (node n) (j + int m)\<rparr>"
  using assms
proof (induction m arbitrary: n j)
  case 0
  then show ?case by simp
next
  case (Suc m)
  let ?n' = "n\<lparr>seq := j + 1, time := now, lastID := packID idType now (node n) (j + 1)\<rparr>"
  have jlt: "j < SeqMax" using Suc.prems(10) by simp
  have g: "Generate n idType now fresh = (Inr (packID idType now (node n) (j + 1)), ?n')"
    by (rule Generate_next_in_ms[OF Suc.prems(1-9) jlt])
  have ih: "fst (run ?n' (replicate m (CallGenerate idType now fresh)))
           = map (\<lambda>k. Inr (packID idType now (node ?n') (j + 1 + 1 + int k))) [0..<m]
       \<and> snd (run ?n' (replicate m (CallGenerate idType now fresh)))
           = ?n'\<lparr>seq := j + 1 + int m, lastID := packID idType now (node ?n') (j + 1 + int m)\<rparr>"
    using Suc.prems by (intro Suc.IH) simp_all
  have up: "[0..<Suc m] = 0 # map Suc [0..<m]"
    by (simp add: upt_conv_Cons map_Suc_upt del: upt_Suc)
  show ?case
    unfolding up using ih Suc.prems(1) by (simp add: g split_beta Let_def comp_def add.assoc)
qed

lemma Generate_stuck:
  assumes "time n = now" "seq n = SeqMax" "idType \<le> TypeMax"
  shows "Generate n idType now (constClock now)
         = (Inl (ErrClockNotAdvancing ClockStuck), n\<lparr>seq := 0\<rparr>)"
proof -
  have s: "add64 (seq n) 1 AND SeqMax = 0"
    using seq_step[of "seq n"] assms(2) by (simp add: layout_defs)
  have w: "waitLoop now (constClock now) now 0 = Inl (ErrClockNotAdvancing ClockStuck)"
    by (rule waitLoop_stuck) (simp_all add: constClock_def)
  show ?thesis
    using assms(1,3) by (simp add: Generate_def Let_def s w)
qed

lemma Generate_after_stuck:
  assumes "time n = now" "seq n = 0" "lastID n = packID idType now (node n) SeqMax"
    "strictMonotonicityChecks n"
    "idType \<le> TypeMax" "0 \<le> now" "now \<le> TimestampMax" "0 \<le> node n" "node n \<le> NodeMax"
  shows "fst (Generate n idType now fresh) = Inl ErrMonotonicityViolation"
proof -
  have s: "add64 (seq n) 1 AND SeqMax = 1"
    using seq_step[of "seq n"] assms(2) by (simp add: layout_defs)
  have "packID idType now (node n) 1 < packID idType now (node n) SeqMax"
    using assms by (intro packID_mono) (simp_all add: layout_defs)
  then have le: "packID idType now (node n) 1 \<le> lastID n"
    using assms(3) by simp
  show ?thesis
    using assms(1,4,5,7) le
    by (simp add: Generate_def generateInternal_def s Let_def)
qed


lemma Generate_stuck_then_violation:
  assumes "NewNode nodeID options = Inr n" "strictMonotonicityChecks n"
    "idType \<le> TypeMax" "0 < now" "now \<le> TimestampMax" "int m = SeqMax"
  shows "fst (run n (CallGenerate idType now (constClock now)
               # (replicate m (CallGenerate idType now (constClock now))
                  @ [CallGenerate idType now (constClock now),
                     CallGenerate idType now (constClock now)])))
           = map (\<lambda>k. Inr (packID idType now nodeID (int k))) [0..<Suc m]
             @ [Inl (ErrClockNotAdvancing ClockStuck), Inl ErrMonotonicityViolation]"
proof -
  let ?c = "CallGenerate idType now (constClock now)"
  let ?n1 = "n\<lparr>seq := 0, time := now, lastID := packID idType now (node n) 0\<rparr>"
  note f = NewNode_fresh[OF assms(1)]
  have now0: "0 \<le> now" using assms(4) by simp
  have g1: "Generate n idType now (constClock now) = (Inr (packID idType now (node n) 0), ?n1)"
    by (rule Generate_fresh_later_state[OF assms(1,3,4,5)])
  have mid: "fst (run ?n1 (replicate m ?c))
           = map (\<lambda>k. Inr (packID idType now (node ?n1) (0 + 1 + int k))) [0..<m]
       \<and> snd (run ?n1 (replicate m ?c))
           = ?n1\<lparr>seq := 0 + int m, lastID := packID idType now (node ?n1) (0 + int m)\<rparr>"
    using assms(3,5,6) now0 f(5,6) by (intro Generate_repeat_in_ms) simp_all
  let ?n2 = "snd (run ?n1 (replicate m ?c))"
  have n2: "time ?n2 = now" "seq ?n2 = SeqMax" "node ?n2 = node n"
    "lastID ?n2 = packID idType now (node n) SeqMax"
    "strictMonotonicityChecks ?n2"
    using mid assms(2,6) by simp_all
  have g2: "Generate ?n2 idType now (constClock now)
            = (Inl (ErrClockNotAdvancing ClockStuck), ?n2\<lparr>seq := 0\<rparr>)"
    by (rule Generate_stuck[OF n2(1,2) assms(3)])
  have g3: "fst (Generate (?n2\<lparr>seq := 0\<rparr>) idType now (constClock now))
            = Inl ErrMonotonicityViolation"
    using n2 assms(3,5) now0 f(5,6) by (intro Generate_after_stuck) simp_all
  have up: "[0..<Suc m] = 0 # map Suc [0..<m]"
    by (simp add: upt_conv_Cons map_Suc_upt del: upt_Suc)
  have "fst (run n (?c # (replicate m ?c @ [?c, ?c])))
        = Inr (packID idType now (node n) 0)
          # (fst (run ?n1 (replicate m ?c))
             @ [Inl (ErrClockNotAdvancing ClockStuck),
                fst (Generate (?n2\<lparr>seq := 0\<rparr>) idType now (constClock now))])"
    by (simp add: g1 g2 run_append split_beta Let_def)
  also have "\<dots> = map (\<lambda>k. Inr (packID idType now nodeID (int k))) [0..<Suc m]
             @ [Inl (ErrClockNotAdvancing ClockStuck), Inl ErrMonotonicityViolation]"
    unfolding up g3 using mid by (simp add: f(2) comp_def add.commute)
  finally show ?thesis .
qed

lemma replicate_1026: "replicate 1026 x = x # (replicate 1023 x @ [x, x])"
proof -
  have "(1026::nat) = Suc 1025" by simp
  then have "replicate 1026 x = replicate 1025 x @ [x]"
    by (simp only: replicate_Suc replicate_append_same)
  also have "\<dots> = x # (replicate 1023 x @ [x, x])"
    unfolding replicate_1025 by simp
  finally show ?thesis .
qed

text \<open>
  On a generator with the default options and a clock that stays at millisecond 5 after
  the epoch, 1026 calls of \<open>Generate\<close> with category 1 give 1024 identifiers, then
  \<open>ErrClockNotAdvancing\<close> from the wait loop, then \<open>ErrMonotonicityViolation\<close>: the
  category never changed.
\<close>

theorem stuck_clock_then_violation:
  "NewNode 0 [] = Inr \<lparr>lastID = 0, node = 0, time = 0, seq = 0, clockWarningCount = 0,
       strictMonotonicityChecks = True, quietMode = False\<rparr>
   \<and> length (fst (run \<lparr>lastID = 0, node = 0, time = 0, seq = 0, clockWarningCount = 0,
       strictMonotonicityChecks = True, quietMode = False\<rparr>
         (replicate 1026 (CallGenerate 1 5 (constClock 5))))) = 1026
   \<and> fst (run \<lparr>lastID = 0, node = 0, time = 0, seq = 0, clockWarningCount = 0,
       strictMonotonicityChecks = True, quietMode = False\<rparr>
         (replicate 1026 (CallGenerate 1 5 (constClock 5)))) ! 1023 = Inr (packID 1 5 0 1023)
   \<and> fst (run \<lparr>lastID = 0, node = 0, time = 0, seq = 0, clockWarningCount = 0,
       strictMonotonicityChecks = True, quietMode = False\<rparr>
         (replicate 1026 (CallGenerate 1 5 (constClock 5)))) ! 1024
       = Inl (ErrClockNotAdvancing ClockStuck)
   \<and> fst (run \<lparr>lastID = 0, node = 0, time = 0, seq = 0, clockWarningCount = 0,
       strictMonotonicityChecks = True, quietMode = False\<rparr>
         (replicate 1026 (CallGenerate 1 5 (constClock 5)))) ! 1025
       = Inl ErrMonotonicityViolation"
proof -
  let ?n = "\<lparr>lastID = 0, node = 0, time = 0, seq = 0, clockWarningCount = 0,
       strictMonotonicityChecks = True, quietMode = False\<rparr>"
  have new: "NewNode 0 [] = Inr ?n"
    by (simp add: NewNode_def layout_defs)
  have m: "int 1023 = SeqMax" by (simp add: layout_defs)
  have r: "fst (run ?n (replicate 1026 (CallGenerate 1 5 (constClock 5))))
           = map (\<lambda>k. Inr (packID 1 5 0 (int k))) [0..<Suc 1023]
             @ [Inl (ErrClockNotAdvancing ClockStuck), Inl ErrMonotonicityViolation]"
    unfolding replicate_1026
    by (rule Generate_stuck_then_violation[OF new _ _ _ _ m]) (simp_all add: layout_defs)
  have l: "length (map (\<lambda>k. Inr (packID 1 5 0 (int k)) :: error + int) [0..<Suc 1023]) = 1024"
    by (simp del: upt_Suc)
  have a: "(map (\<lambda>k. Inr (packID 1 5 0 (int k))) [0..<Suc 1023]
             @ [Inl (ErrClockNotAdvancing ClockStuck), Inl ErrMonotonicityViolation]) ! 1023
           = Inr (packID 1 5 0 1023)"
    by (simp add: nth_append del: upt_Suc)
  have b: "(map (\<lambda>k. Inr (packID 1 5 0 (int k)) :: error + int) [0..<Suc 1023]
             @ [Inl (ErrClockNotAdvancing ClockStuck), Inl ErrMonotonicityViolation]) ! 1024
           = Inl (ErrClockNotAdvancing ClockStuck)"
    using nth_append_length[of "map (\<lambda>k. Inr (packID 1 5 0 (int k)) :: error + int) [0..<Suc 1023]"]
    unfolding l by simp
  have c: "(map (\<lambda>k. Inr (packID 1 5 0 (int k)) :: error + int) [0..<Suc 1023]
             @ [Inl (ErrClockNotAdvancing ClockStuck), Inl ErrMonotonicityViolation]) ! 1025
           = Inl ErrMonotonicityViolation"
    using nth_append_length_plus[of "map (\<lambda>k. Inr (packID 1 5 0 (int k)) :: error + int) [0..<Suc 1023]" _ 1]
    unfolding l by simp
  show ?thesis
    unfolding r using new a b c by (simp del: upt_Suc)
qed


section \<open>Text codecs: tables, digits and loops\<close>

subsection \<open>The decoding tables\<close>

lemma tableUpTo_0: "tableUpTo emap 0 c = 0xFF"
  by (simp add: tableUpTo_def)

lemma tableUpTo_Suc: "tableUpTo emap (Suc k) c = (if c = emap ! k then k else tableUpTo emap k c)"
  by (simp add: tableUpTo_def)

lemma initDecodeMap_take:
  assumes "distinct emap" "k \<le> length emap"
  shows "tableUpTo emap k c
         = (if c \<in> set (take k emap) then (THE j. j < k \<and> emap ! j = c) else 0xFF)"
  using assms(2)
proof (induction k)
  case 0
  then show ?case by (simp add: tableUpTo_0)
next
  case (Suc k)
  have kl: "k < length emap" using Suc.prems by simp
  have ih: "tableUpTo emap k c
         = (if c \<in> set (take k emap) then (THE j. j < k \<and> emap ! j = c) else 0xFF)"
    by (rule Suc.IH) (use Suc.prems in simp)
  have tk: "take (Suc k) emap = take k emap @ [emap ! k]"
    using kl by (simp add: take_Suc_conv_app_nth)
  show ?case
  proof (cases "emap ! k = c")
    case True
    have "(THE j. j < Suc k \<and> emap ! j = c) = k"
    proof (rule the_equality)
      show "k < Suc k \<and> emap ! k = c" using True by simp
    next
      fix j assume "j < Suc k \<and> emap ! j = c"
      then show "j = k"
        using True kl assms(1) by (auto simp: nth_eq_iff_index_eq)
    qed
    then show ?thesis using True by (simp add: tk tableUpTo_Suc)
  next
    case False
    have "(THE j. j < Suc k \<and> emap ! j = c) = (THE j. j < k \<and> emap ! j = c)"
      using False by (metis less_Suc_eq)
    then show ?thesis using False unfolding tableUpTo_Suc ih tk by auto
  qed
qed

lemma initDecodeMap_tableUpTo: "initDecodeMap emap = tableUpTo emap (length emap)"
  by (simp add: initDecodeMap_def tableUpTo_def)

lemma initDecodeMap_nth:
  assumes "distinct emap" "i < length emap"
  shows "initDecodeMap emap (emap ! i) = i"
proof -
  have "(THE j. j < length emap \<and> emap ! j = emap ! i) = i"
    using assms by (intro the_equality) (auto simp: nth_eq_iff_index_eq)
  then show ?thesis
    unfolding initDecodeMap_tableUpTo initDecodeMap_take[OF assms(1) order_refl]
    using assms(2) by simp
qed

lemma initDecodeMap_notin:
  assumes "distinct emap" "c \<notin> set emap"
  shows "initDecodeMap emap c = 0xFF"
  unfolding initDecodeMap_tableUpTo initDecodeMap_take[OF assms(1) order_refl]
  using assms(2) by simp

lemma initDecodeMap_in:
  assumes "distinct emap" "c \<in> set emap"
  shows "initDecodeMap emap c < length emap" "emap ! initDecodeMap emap c = c"
proof -
  from assms(2) obtain i where i: "i < length emap" "emap ! i = c"
    by (auto simp: in_set_conv_nth)
  from initDecodeMap_nth[OF assms(1) i(1)] i
  show "initDecodeMap emap c < length emap" "emap ! initDecodeMap emap c = c" by simp_all
qed

lemma distinct_base32: "distinct encodeBase32Map"
  by (simp add: encodeBase32Map_def)

lemma distinct_base58: "distinct encodeBase58Map"
  by (simp add: encodeBase58Map_def)

lemma length_base32: "length encodeBase32Map = 32"
  by (simp add: encodeBase32Map_def)

lemma length_base58: "length encodeBase58Map = 58"
  by (simp add: encodeBase58Map_def)


subsection \<open>Digits\<close>

lemma digitsOf_0 [simp]: "digitsOf base 0 = []"
  by (simp add: digitsOf.simps)

lemma digitsOf_pos: "2 \<le> base \<Longrightarrow> 0 < n \<Longrightarrow> digitsOf base n = digitsOf base (n div base) @ [n mod base]"
  by (subst digitsOf.simps) simp

lemma digitsOf_lt: "d \<in> set (digitsOf base n) \<Longrightarrow> d < base"
proof (induction base n rule: digitsOf.induct)
  case (1 base n)
  show ?case
  proof (cases "base < 2 \<or> n = 0")
    case True
    with "1.prems" show ?thesis by (simp add: digitsOf.simps)
  next
    case False
    with "1.prems" have "d \<in> set (digitsOf base (n div base)) \<or> d = n mod base"
      by (auto simp: digitsOf_pos)
    then show ?thesis using "1.IH"[OF False] False by auto
  qed
qed

lemma length_digitsOf: "2 \<le> base \<Longrightarrow> n < base ^ k \<Longrightarrow> length (digitsOf base n) \<le> k"
proof (induction k arbitrary: n)
  case 0
  then show ?case by simp
next
  case (Suc k)
  show ?case
  proof (cases "n = 0")
    case True
    then show ?thesis by simp
  next
    case False
    have "n div base < base ^ k"
      using Suc.prems by (simp add: less_mult_imp_div_less mult.commute)
    from Suc.IH[OF Suc.prems(1) this] show ?thesis
      using False Suc.prems(1) by (simp add: digitsOf_pos)
  qed
qed

lemma valueOf_snoc: "valueOf base (ds @ [d]) = valueOf base ds * base + d"
  by (simp add: valueOf_def)

lemma valueOf_digitsOf: "2 \<le> base \<Longrightarrow> valueOf base (digitsOf base n) = n"
proof (induction base n rule: digitsOf.induct)
  case (1 base n)
  show ?case
  proof (cases "n = 0")
    case True
    then show ?thesis by (simp add: valueOf_def)
  next
    case False
    then have "valueOf base (digitsOf base (n div base)) = n div base"
      using "1.IH" "1.prems" by simp
    then show ?thesis
      using False "1.prems" by (simp add: digitsOf_pos valueOf_snoc)
  qed
qed

lemma digitsOf_nonempty: "2 \<le> base \<Longrightarrow> 0 < n \<Longrightarrow> digitsOf base n \<noteq> []"
  by (simp add: digitsOf_pos)

subsection \<open>The encoding loop writes the digits\<close>

lemma encodeLoop_digits:
  assumes "2 \<le> base" "int (length (digitsOf base n)) \<le> i + 1" "i + 1 \<le> int (length buf)"
  shows "encodeLoop emap base n buf i
         = Some (map (\<lambda>d. emap ! d) (digitsOf base n) @ drop (nat (i + 1)) buf)"
  using assms
proof (induction emap base n buf i rule: encodeLoop.induct)
  case (1 emap base n buf i)
  show ?case
  proof (cases "n > 0")
    case False
    then show ?thesis using "1.prems"(1) by (subst encodeLoop.simps) simp
  next
    case True
    have dg: "digitsOf base n = digitsOf base (n div base) @ [n mod base]"
      using digitsOf_pos[OF "1.prems"(1) True] .
    have i0: "0 \<le> i" "i < int (length buf)"
      using "1.prems"(2,3) by (simp_all add: dg)
    let ?buf = "buf[nat i := emap ! (n mod base)]"
    have ih: "encodeLoop emap base (n div base) ?buf (i - 1)
         = Some (map (\<lambda>d. emap ! d) (digitsOf base (n div base)) @ drop (nat (i - 1 + 1)) ?buf)"
      using "1.prems" True i0 by (intro "1.IH") (simp_all add: dg)
    have dr: "drop (nat i) ?buf = emap ! (n mod base) # drop (nat (i + 1)) buf"
    proof -
      have l: "nat i < length ?buf" using i0 by simp
      have "drop (nat i) ?buf = ?buf ! nat i # drop (Suc (nat i)) ?buf"
        by (rule Cons_nth_drop_Suc[OF l, symmetric])
      also have "?buf ! nat i = emap ! (n mod base)" using i0 by simp
      also have "drop (Suc (nat i)) ?buf = drop (Suc (nat i)) buf" by simp
      also have "Suc (nat i) = nat (i + 1)" using i0 by simp
      finally show ?thesis .
    qed
    have "encodeLoop emap base n buf i = encodeLoop emap base (n div base) ?buf (i - 1)"
      using True "1.prems"(1) i0 by (subst encodeLoop.simps) simp
    then show ?thesis
      unfolding ih by (simp add: dr dg)
  qed
qed

subsection \<open>The decoding loop reads the digits\<close>

lemma foldl_digits_ge: "a \<le> foldl (\<lambda>a d. a * base + d) a ds" if "1 \<le> base" for base :: nat
proof (induction ds arbitrary: a)
  case Nil
  then show ?case by simp
next
  case (Cons d ds)
  have "a \<le> a * base" using that by simp
  also have "\<dots> \<le> a * base + d" by simp
  also have "\<dots> \<le> foldl (\<lambda>a d. a * base + d) (a * base + d) ds" by (rule Cons.IH)
  finally show ?case by simp
qed

lemma decode_check: "val \<le> (MaxUint64 - d) div base \<longleftrightarrow> val * base + d \<le> MaxUint64"
  if "0 < base" "d \<le> MaxUint64"
proof -
  have "val \<le> (MaxUint64 - d) div base \<longleftrightarrow> val * base \<le> MaxUint64 - d"
    using that(1) by (simp add: less_eq_div_iff_mult_less_eq)
  also have "\<dots> \<longleftrightarrow> val * base + d \<le> MaxUint64"
    using that(2) by auto
  finally show ?thesis .
qed

lemma decodeLoop_digits:
  assumes "distinct emap" "length emap = base" "2 \<le> base" "base < 0xFF"
    and "\<forall>d \<in> set ds. d < base"
    and "foldl (\<lambda>a d. a * base + d) val ds \<le> MaxUint64"
  shows "decodeLoop (initDecodeMap emap) base err (map (\<lambda>d. emap ! d) ds) val
         = Inr (foldl (\<lambda>a d. a * base + d) val ds)"
  using assms(5,6)
proof (induction ds arbitrary: val)
  case Nil
  then show ?case by simp
next
  case (Cons d ds)
  have d: "d < base" using Cons.prems(1) by simp
  have dm: "initDecodeMap emap (emap ! d) = d"
    using d assms(1,2) by (intro initDecodeMap_nth) simp_all
  have dM: "d \<le> MaxUint64" using d assms(4) by (simp add: MaxUint64_def)
  have "val * base + d \<le> foldl (\<lambda>a d. a * base + d) (val * base + d) ds"
    using assms(3) by (intro foldl_digits_ge) simp
  then have le: "val * base + d \<le> MaxUint64" using Cons.prems(2) by simp
  then have chk: "\<not> val > (MaxUint64 - d) div base"
    using decode_check[of base d val] assms(3) dM by simp
  have md: "(val * base + d) mod 2 ^ 64 = val * base + d"
    using le by (simp add: MaxUint64_def)
  have nf: "d \<noteq> 0xFF" using d assms(4) by simp
  show ?case
    using Cons.IH[of "val * base + d"] Cons.prems chk nf md
    by (simp add: dm Let_def)
qed

lemma decodeLoop_Inr:
  assumes "decodeLoop dmap base err s val = Inr x" "0 < base" "\<forall>c. dmap c \<le> 0xFF"
  shows "(\<forall>c \<in> set s. dmap c \<noteq> 0xFF) \<and> x = foldl (\<lambda>a c. a * base + dmap c) val s
       \<and> (s \<noteq> [] \<longrightarrow> x \<le> MaxUint64)"
  using assms(1)
proof (induction s arbitrary: val)
  case Nil
  then show ?case by simp
next
  case (Cons c cs)
  from Cons.prems have nf: "dmap c \<noteq> 0xFF"
    and chk: "\<not> val > (MaxUint64 - dmap c) div base"
    and rec: "decodeLoop dmap base err cs ((val * base + dmap c) mod 2 ^ 64) = Inr x"
    by (auto simp: Let_def split: if_splits)
  have dM: "dmap c \<le> MaxUint64"
    using assms(3)[rule_format, of c] by (simp add: MaxUint64_def)
  have le: "val * base + dmap c \<le> MaxUint64"
    using decode_check[OF assms(2) dM, of val] chk by simp
  then have md: "(val * base + dmap c) mod 2 ^ 64 = val * base + dmap c"
    by (simp add: MaxUint64_def)
  from rec md have "decodeLoop dmap base err cs (val * base + dmap c) = Inr x" by simp
  from Cons.IH[OF this]
  have ih: "\<forall>c \<in> set cs. dmap c \<noteq> 0xFF" "x = foldl (\<lambda>a c. a * base + dmap c) (val * base + dmap c) cs"
    "cs \<noteq> [] \<longrightarrow> x \<le> MaxUint64"
    by blast+
  have "x \<le> MaxUint64"
  proof (cases cs)
    case Nil
    then show ?thesis using ih(2) le by simp
  next
    case (Cons a list)
    then show ?thesis using ih(3) by simp
  qed
  then show ?case using nf ih by simp
qed

lemma initDecodeMap_le:
  assumes "distinct emap" "length emap \<le> 0xFF"
  shows "initDecodeMap emap c \<le> 0xFF"
proof (cases "c \<in> set emap")
  case True
  from initDecodeMap_in(1)[OF assms(1) True] assms(2) show ?thesis by simp
next
  case False
  from initDecodeMap_notin[OF assms(1) False] show ?thesis by simp
qed

lemma initDecodeMap_FF_iff:
  assumes "distinct emap" "length emap \<le> 0xFF"
  shows "initDecodeMap emap c = 0xFF \<longleftrightarrow> c \<notin> set emap"
proof (cases "c \<in> set emap")
  case True
  from initDecodeMap_in(1)[OF assms(1) True] assms(2) True show ?thesis by simp
next
  case False
  from initDecodeMap_notin[OF assms(1) False] False show ?thesis by simp
qed


lemma digitsOrZero_props:
  assumes "2 \<le> base"
  shows "digitsOrZero base n \<noteq> []" "\<forall>d \<in> set (digitsOrZero base n). d < base"
    "valueOf base (digitsOrZero base n) = n"
    "n < base ^ k \<Longrightarrow> 0 < k \<Longrightarrow> length (digitsOrZero base n) \<le> k"
  using assms digitsOf_nonempty[of base n] digitsOf_lt[of _ base n] valueOf_digitsOf[of base n]
    length_digitsOf[of base n k]
  by (auto simp: digitsOrZero_def valueOf_def)

lemma encodeLoop_value:
  assumes "2 \<le> base" "(2::nat) ^ 64 \<le> base ^ L" "0 < v" "v < 2 ^ 64"
  shows "encodeLoop emap base (uint64_of v) (replicate L z) (int L - 1)
         = Some (map (\<lambda>d. emap ! d) (digitsOf base (nat v)))"
proof -
  have u: "uint64_of v = nat v" using assms(3,4) by (simp add: uint64_of_def)
  have "nat v < 2 ^ 64" using assms(3,4) by (simp add: nat_less_iff)
  then have "nat v < base ^ L" using assms(2) by simp
  from length_digitsOf[OF assms(1) this]
  have len: "int (length (digitsOf base (nat v))) \<le> int L - 1 + 1" by simp
  have "encodeLoop emap base (nat v) (replicate L z) (int L - 1)
         = Some (map (\<lambda>d. emap ! d) (digitsOf base (nat v)) @ drop (nat (int L - 1 + 1)) (replicate L z))"
    by (rule encodeLoop_digits[OF assms(1) len]) simp
  then show ?thesis by (simp add: u)
qed

lemma foldl_zeros: "foldl (\<lambda>a d. a * base + d) 0 (replicate k 0 @ ds) = foldl (\<lambda>a d. a * base + d) 0 ds"
  for base :: nat
  by (induction k) simp_all

lemma decodeLoop_padded:
  assumes "distinct emap" "length emap = base" "2 \<le> base" "base < 0xFF"
    and "\<forall>d \<in> set ds. d < base" "valueOf base ds \<le> MaxUint64"
  shows "decodeLoop (initDecodeMap emap) base err (replicate k (emap ! 0) @ map (\<lambda>d. emap ! d) ds) 0
         = Inr (valueOf base ds)"
proof -
  have m: "replicate k (emap ! 0) @ map (\<lambda>d. emap ! d) ds = map (\<lambda>d. emap ! d) (replicate k 0 @ ds)"
    by simp
  have a: "\<forall>d \<in> set (replicate k 0 @ ds). d < base" using assms(3,5) by auto
  have b: "foldl (\<lambda>a d. a * base + d) 0 (replicate k 0 @ ds) \<le> MaxUint64"
    using assms(6) by (simp only: foldl_zeros valueOf_def)
  show ?thesis
    unfolding m decodeLoop_digits[OF assms(1-4) a b] by (simp only: foldl_zeros valueOf_def)
qed

lemma pow_32_13: "(2::nat) ^ 64 \<le> 32 ^ 13" by simp
lemma pow_58_11: "(2::nat) ^ 64 \<le> 58 ^ 11" by simp

lemma Base32_digits:
  assumes "0 \<le> v" "v < 2 ^ 63"
  shows "Base32 v = Some (map (\<lambda>d. encodeBase32Map ! d) (digitsOrZero 32 (nat v)))"
proof (cases "v = 0")
  case True
  then show ?thesis by (simp add: Base32_def digitsOrZero_def)
next
  case False
  then have p: "0 < v" "v < 2 ^ 64" using assms by simp_all
  have "encodeLoop encodeBase32Map 32 (uint64_of v) (replicate 13 (CHR 0x00)) (int 13 - 1)
         = Some (map (\<lambda>d. encodeBase32Map ! d) (digitsOf 32 (nat v)))"
    by (rule encodeLoop_value[OF _ pow_32_13 p]) simp
  then show ?thesis using False p by (simp add: Base32_def digitsOrZero_def)
qed

lemma Base58_digits:
  assumes "0 \<le> v" "v < 2 ^ 63"
  shows "Base58 v = Some (map (\<lambda>d. encodeBase58Map ! d) (digitsOrZero 58 (nat v)))"
proof (cases "v = 0")
  case True
  then show ?thesis by (simp add: Base58_def digitsOrZero_def)
next
  case False
  then have p: "0 < v" "v < 2 ^ 64" using assms by simp_all
  have "encodeLoop encodeBase58Map 58 (uint64_of v) (replicate 11 (CHR 0x00)) (int 11 - 1)
         = Some (map (\<lambda>d. encodeBase58Map ! d) (digitsOf 58 (nat v)))"
    by (rule encodeLoop_value[OF _ pow_58_11 p]) simp
  then show ?thesis using False p by (simp add: Base58_def digitsOrZero_def)
qed

lemma ParseBase32_padded:
  assumes "0 \<le> v" "v < 2 ^ 63" "k + length (digitsOrZero 32 (nat v)) \<le> 13"
  shows "ParseBase32 (replicate k (encodeBase32Map ! 0)
            @ map (\<lambda>d. encodeBase32Map ! d) (digitsOrZero 32 (nat v))) = Inr v"
proof -
  note p = digitsOrZero_props[of 32 "nat v", simplified]
  have vM: "valueOf 32 (digitsOrZero 32 (nat v)) \<le> MaxUint64"
    using assms(1,2) by (simp add: p(3) MaxUint64_def nat_le_iff)
  have d: "decodeLoop decodeBase32Map 32 ErrInvalidBase32
             (replicate k (encodeBase32Map ! 0)
              @ map (\<lambda>d. encodeBase32Map ! d) (digitsOrZero 32 (nat v))) 0 = Inr (nat v)"
    unfolding decodeBase32Map_def
    using decodeLoop_padded[OF distinct_base32 length_base32 _ _ p(2) vM, of ErrInvalidBase32 k]
    by (simp add: p(3))
  have "\<not> nat v > MaxInt64" using assms(1,2) by (simp add: MaxInt64_def nat_le_iff)
  then show ?thesis
    using assms(1,3) p(1) by (simp add: ParseBase32_def d)
qed

lemma ParseBase58_padded:
  assumes "0 \<le> v" "v < 2 ^ 63" "k + length (digitsOrZero 58 (nat v)) \<le> 11"
  shows "ParseBase58 (replicate k (encodeBase58Map ! 0)
            @ map (\<lambda>d. encodeBase58Map ! d) (digitsOrZero 58 (nat v))) = Inr v"
proof -
  note p = digitsOrZero_props[of 58 "nat v", simplified]
  have vM: "valueOf 58 (digitsOrZero 58 (nat v)) \<le> MaxUint64"
    using assms(1,2) by (simp add: p(3) MaxUint64_def nat_le_iff)
  have d: "decodeLoop decodeBase58Map 58 ErrInvalidBase58
             (replicate k (encodeBase58Map ! 0)
              @ map (\<lambda>d. encodeBase58Map ! d) (digitsOrZero 58 (nat v))) 0 = Inr (nat v)"
    unfolding decodeBase58Map_def
    using decodeLoop_padded[OF distinct_base58 length_base58 _ _ p(2) vM, of ErrInvalidBase58 k]
    by (simp add: p(3))
  have "\<not> nat v > MaxInt64" using assms(1,2) by (simp add: MaxInt64_def nat_le_iff)
  then show ?thesis
    using assms(1,3) p(1) by (simp add: ParseBase58_def d)
qed

section \<open>Non-canonical encodings\<close>

lemma first_chars: "encodeBase32Map ! 0 = CHR ''y''" "encodeBase58Map ! 0 = CHR ''1''"
  by (simp_all add: encodeBase32Map_def encodeBase58Map_def)

lemma noncanonical_examples:
  "Base32 1 = Some ''b''" "ParseBase32 ''yb'' = Inr 1" "ParseBase32 ''b'' = Inr 1"
  "Base58 1 = Some ''2''" "ParseBase58 ''12'' = Inr 1" "ParseBase58 ''2'' = Inr 1"
proof -
  have d: "digitsOrZero 32 (Suc 0) = [1]" "digitsOrZero 58 (Suc 0) = [1]"
    by (simp_all add: digitsOrZero_def digitsOf_pos)
  show "Base32 1 = Some ''b''"
    using Base32_digits[of 1] by (simp add: d encodeBase32Map_def)
  show "ParseBase32 ''yb'' = Inr 1"
    using ParseBase32_padded[of 1 1] by (simp add: d encodeBase32Map_def)
  show "ParseBase32 ''b'' = Inr 1"
    using ParseBase32_padded[of 1 0] by (simp add: d encodeBase32Map_def)
  show "Base58 1 = Some ''2''"
    using Base58_digits[of 1] by (simp add: d encodeBase58Map_def)
  show "ParseBase58 ''12'' = Inr 1"
    using ParseBase58_padded[of 1 1] by (simp add: d encodeBase58Map_def)
  show "ParseBase58 ''2'' = Inr 1"
    using ParseBase58_padded[of 1 0] by (simp add: d encodeBase58Map_def)
qed

text \<open>
  C10: the base-32 and base-58 decoders accept non-canonical encodings. For every
  identifier value \<open>v\<close> (0 up to 2^63 - 1), prepending any number of copies of the
  alphabet's first character to the encoding of \<open>v\<close> gives a string that decodes to
  \<open>v\<close>, as long as it is no longer than 13 (base-32) or 11 (base-58) characters. So
  decoding is not injective and encoding the decoded value does not give the string
  back: \<open>"yb"\<close> and \<open>"b"\<close> both decode to 1 in base-32, \<open>"12"\<close> and \<open>"2"\<close> in
  base-58.
\<close>

theorem C10_noncanonical_accepted:
  assumes "0 \<le> v" "v < 2 ^ 63"
  shows "(\<exists>s. Base32 v = Some s
            \<and> (\<forall>k. k + length s \<le> 13 \<longrightarrow>
                  ParseBase32 (replicate k (encodeBase32Map ! 0) @ s) = Inr v))
       \<and> (\<exists>s. Base58 v = Some s
            \<and> (\<forall>k. k + length s \<le> 11 \<longrightarrow>
                  ParseBase58 (replicate k (encodeBase58Map ! 0) @ s) = Inr v))
       \<and> encodeBase32Map ! 0 = CHR ''y'' \<and> encodeBase58Map ! 0 = CHR ''1''
       \<and> Base32 1 = Some ''b'' \<and> ParseBase32 ''yb'' = Inr 1 \<and> ParseBase32 ''b'' = Inr 1
       \<and> Base58 1 = Some ''2'' \<and> ParseBase58 ''12'' = Inr 1 \<and> ParseBase58 ''2'' = Inr 1"
proof -
  have a: "\<exists>s. Base32 v = Some s
            \<and> (\<forall>k. k + length s \<le> 13 \<longrightarrow>
                  ParseBase32 (replicate k (encodeBase32Map ! 0) @ s) = Inr v)"
    using Base32_digits[OF assms] ParseBase32_padded[OF assms] by simp
  have b: "\<exists>s. Base58 v = Some s
            \<and> (\<forall>k. k + length s \<le> 11 \<longrightarrow>
                  ParseBase58 (replicate k (encodeBase58Map ! 0) @ s) = Inr v)"
    using Base58_digits[OF assms] ParseBase58_padded[OF assms] by simp
  show ?thesis
    using a b first_chars noncanonical_examples by blast
qed

theorem C10_noncanonical_accepted_witness:
  "(0::int) \<le> 33 \<and> (33::int) < 2 ^ 63
   \<and> Base32 33 = Some ''bb'' \<and> ParseBase32 ''yyybb'' = Inr 33
   \<and> Base58 33 = Some ''z'' \<and> ParseBase58 ''11z'' = Inr 33"
proof -
  have h: "(0::int) \<le> 33" "(33::int) < 2 ^ 63" by simp_all
  have d: "digitsOrZero 32 33 = [1, 1]" "digitsOrZero 58 33 = [33]"
    by (simp_all add: digitsOrZero_def digitsOf_pos)
  have e32: "Base32 33 = Some ''bb''"
    using Base32_digits[OF h] by (simp add: d encodeBase32Map_def)
  have e58: "Base58 33 = Some ''z''"
    using Base58_digits[OF h] by (simp add: d encodeBase58Map_def)
  note t = C10_noncanonical_accepted[OF h]
  from t e32 have "ParseBase32 (replicate 3 (encodeBase32Map ! 0) @ ''bb'') = Inr 33"
    by auto
  then have p32: "ParseBase32 ''yyybb'' = Inr 33"
    by (simp add: first_chars numeral_3_eq_3)
  from t e58 have "ParseBase58 (replicate 2 (encodeBase58Map ! 0) @ ''z'') = Inr 33"
    by auto
  then have p58: "ParseBase58 ''11z'' = Inr 33"
    by (simp add: first_chars numeral_2_eq_2)
  show ?thesis using h e32 p32 e58 p58 by simp
qed

section \<open>Decimal and binary\<close>

lemma upt_10: "[0..<10] = [0,1,2,3,4,5,6,7,8,9::nat]"
  by (simp add: upt_rec)

lemma digitOf_digitChars: "d < 10 \<Longrightarrow> digitOf (digitChars ! d) = Some d"
proof -
  assume "d < 10"
  then have "d \<in> set [0..<10]" by simp
  then show ?thesis
    unfolding upt_10 by (auto simp: digitOf_def digitChars_def Let_def)
qed

lemma digitOf_range: "digitOf c = Some d \<Longrightarrow> d \<le> 35"
  by (auto simp: digitOf_def Let_def split: if_splits)

lemma digitOf_sign: "digitOf (CHR ''+'') = None" "digitOf (CHR ''-'') = None"
  by (simp_all add: digitOf_def Let_def)

lemma formatBits_digits:
  "2 \<le> base \<Longrightarrow> formatBits u base = map (\<lambda>d. digitChars ! d) (digitsOrZero base u)"
proof (induction u base rule: formatBits.induct)
  case (1 u base)
  show ?case
  proof (cases "u < base")
    case True
    have "digitsOrZero base u = [u]"
      using True "1.prems" by (cases "u = 0") (simp_all add: digitsOrZero_def digitsOf_pos)
    then show ?thesis using True "1.prems" by (subst formatBits.simps) simp
  next
    case False
    then have pos: "0 < u" "0 < u div base" using "1.prems" by (simp_all add: div_greater_zero_iff)
    have ih: "formatBits (u div base) base = map (\<lambda>d. digitChars ! d) (digitsOrZero base (u div base))"
      using "1.IH" False "1.prems" by simp
    have "digitsOrZero base u = digitsOrZero base (u div base) @ [u mod base]"
      using pos "1.prems" by (simp add: digitsOrZero_def digitsOf_pos[of base u])
    then show ?thesis
      using False "1.prems" by (subst formatBits.simps) (simp add: ih)
  qed
qed

lemma ParseUint_loop_digits:
  assumes "2 \<le> base" "base \<le> 10" "\<forall>d \<in> set ds. d < base"
    "foldl (\<lambda>a d. a * base + d) n ds \<le> MaxUint64"
  shows "ParseUint_loop base (map (\<lambda>d. digitChars ! d) ds) n = Inr (foldl (\<lambda>a d. a * base + d) n ds)"
  using assms(3,4)
proof (induction ds arbitrary: n)
  case Nil
  then show ?case by simp
next
  case (Cons d ds)
  have d: "d < base" using Cons.prems(1) by simp
  have dg: "digitOf (digitChars ! d) = Some d"
    using d assms(2) by (intro digitOf_digitChars) simp
  have "n * base + d \<le> foldl (\<lambda>a d. a * base + d) (n * base + d) ds"
    using assms(1) by (intro foldl_digits_ge) simp
  then have le: "n * base + d \<le> MaxUint64" using Cons.prems(2) by simp
  then have "n * base \<le> MaxUint64" by simp
  then have "n \<le> MaxUint64 div base"
    using assms(1) by (simp add: less_eq_div_iff_mult_less_eq)
  then have c1: "\<not> n \<ge> MaxUint64 div base + 1" by simp
  have m1: "(n * base) mod 2 ^ 64 = n * base" using le by (simp add: MaxUint64_def)
  have m2: "(n * base + d) mod 2 ^ 64 = n * base + d" using le by (simp add: MaxUint64_def)
  have ih: "ParseUint_loop base (map (\<lambda>d. digitChars ! d) ds) (n * base + d)
              = Inr (foldl (\<lambda>a d. a * base + d) (n * base + d) ds)"
    using Cons.prems by (intro Cons.IH) simp_all
  have "ParseUint_loop base (map (\<lambda>d. digitChars ! d) (d # ds)) n
        = ParseUint_loop base (map (\<lambda>d. digitChars ! d) ds) (n * base + d)"
    using d c1 le m1 m2 by (simp add: dg Let_def del: One_nat_def)
  then show ?case using ih by simp
qed


lemma ParseUint_loop_Inr:
  assumes "ParseUint_loop base s n = Inr x" "0 < base" "n \<le> MaxUint64"
  shows "(\<forall>c \<in> set s. \<exists>d. digitOf c = Some d \<and> d < base)
       \<and> x = foldl (\<lambda>a c. a * base + the (digitOf c)) n s \<and> x \<le> MaxUint64"
  using assms(1,3)
proof (induction s arbitrary: n)
  case Nil
  then show ?case by simp
next
  case (Cons c cs)
  from Cons.prems(1) obtain d where dg: "digitOf c = Some d"
    by (cases "digitOf c") simp_all
  from Cons.prems(1) dg have db: "d < base" and c1: "\<not> n \<ge> MaxUint64 div base + 1"
    by (auto split: if_splits)
  have "n \<le> MaxUint64 div base" using c1 by simp
  then have nb: "n * base \<le> MaxUint64"
    using assms(2) by (simp add: less_eq_div_iff_mult_less_eq)
  then have m1: "(n * base) mod 2 ^ 64 = n * base" by (simp add: MaxUint64_def)
  let ?n1 = "(n * base + d) mod 2 ^ 64"
  from Cons.prems(1) dg db c1 m1
  have c2: "\<not> ?n1 < n * base" and rec: "ParseUint_loop base cs ?n1 = Inr x"
    by (auto simp: Let_def split: if_splits)
  have d35: "d \<le> 35" using digitOf_range[OF dg] .
  have le: "n * base + d \<le> MaxUint64"
  proof (rule ccontr)
    assume "\<not> n * base + d \<le> MaxUint64"
    then have big: "2 ^ 64 \<le> n * base + d" by (simp add: MaxUint64_def)
    have "n * base + d < 2 * 2 ^ 64" using nb d35 by (simp add: MaxUint64_def)
    then have "?n1 = n * base + d - 2 ^ 64"
      using big by (simp add: mod_if le_mod_geq)
    then have "?n1 < n * base" using big d35 by simp
    with c2 show False by simp
  qed
  then have m2: "?n1 = n * base + d" by (simp add: MaxUint64_def)
  from Cons.IH[OF rec[unfolded m2] le]
  show ?case using dg db by simp
qed

lemma ParseInt_digits:
  assumes "2 \<le> base" "base \<le> 10" "ds \<noteq> []" "\<forall>d \<in> set ds. d < base" "valueOf base ds < 2 ^ 63"
  shows "ParseInt (map (\<lambda>d. digitChars ! d) ds) base = Inr (int (valueOf base ds))"
proof -
  let ?s = "map (\<lambda>d. digitChars ! d) ds"
  have ne: "?s \<noteq> []" using assms(3) by simp
  have "hd ds < 10" using assms(2,3,4) by (cases ds) auto
  then have "digitOf (hd ?s) = Some (hd ds)"
    using assms(3) by (simp add: hd_map digitOf_digitChars)
  then have sg: "hd ?s \<noteq> CHR ''+''" "hd ?s \<noteq> CHR ''-''"
    using digitOf_sign by auto
  have "foldl (\<lambda>a d. a * base + d) 0 ds \<le> MaxUint64"
    using assms(5) by (simp add: valueOf_def MaxUint64_def)
  from ParseUint_loop_digits[OF assms(1,2,4) this]
  have "ParseUint ?s base = Inr (valueOf base ds)"
    using ne by (simp add: ParseUint_def valueOf_def)
  then show ?thesis
    using ne sg assms(5) by (simp add: ParseInt_def Let_def)
qed

lemma ParseString_String:
  assumes "0 \<le> v" "v < 2 ^ 63"
  shows "ParseString (String v) = Inr v"
proof -
  note p = digitsOrZero_props[of 10 "nat v", simplified]
  have s: "String v = map (\<lambda>d. digitChars ! d) (digitsOrZero 10 (nat v))"
    using assms(1) by (simp add: String_def FormatInt_def formatBits_digits)
  have "valueOf 10 (digitsOrZero 10 (nat v)) < 2 ^ 63"
    using assms by (simp add: p(3) nat_less_iff)
  from ParseInt_digits[OF _ _ p(1) p(2) this]
  show ?thesis using assms(1) by (simp add: ParseString_def s p(3))
qed

lemma valueOf_zeros: "valueOf base (replicate k 0 @ ds) = valueOf base ds"
  unfolding valueOf_def by (rule foldl_zeros)

lemma ParseBase2_Base2:
  assumes "0 \<le> v" "v < 2 ^ 63"
  shows "ParseBase2 (Base2 v) = Inr v"
proof -
  note p = digitsOrZero_props[of 2 "nat v", simplified]
  let ?ds = "digitsOrZero 2 (nat v)"
  let ?k = "63 - length (formatBits (nat v) 2)"
  have z: "digitChars ! 0 = CHR ''0''" by (simp add: digitChars_def)
  have s: "Base2 v = map (\<lambda>d. digitChars ! d) (replicate ?k 0 @ ?ds)"
    using assms(1) by (simp add: Base2_def Sprintf_063b_def padZeros_def formatBits_digits z)
  have ne: "replicate ?k 0 @ ?ds \<noteq> []" using p(1) by simp
  have lt: "\<forall>d \<in> set (replicate ?k 0 @ ?ds). d < 2" using p(2) by auto
  have "valueOf 2 (replicate ?k 0 @ ?ds) < 2 ^ 63"
    using assms by (simp add: valueOf_zeros p(3) nat_less_iff)
  from ParseInt_digits[OF _ _ ne lt this]
  show ?thesis using assms(1) by (simp add: ParseBase2_def s valueOf_zeros p(3))
qed

lemma length_Base2:
  assumes "0 \<le> v" "v < 2 ^ 63"
  shows "length (Base2 v) = 63"
proof -
  have "nat v < 2 ^ 63" using assms by (simp add: nat_less_iff)
  from digitsOrZero_props(4)[of 2 "nat v" 63, OF _ this]
  have "length (formatBits (nat v) 2) \<le> 63" by (simp add: formatBits_digits)
  then show ?thesis using assms(1) by (simp add: Base2_def Sprintf_063b_def padZeros_def)
qed

lemma of_char_neq: "c \<noteq> d \<Longrightarrow> (of_char d :: nat) = n \<Longrightarrow> of_char c \<noteq> n"
  by auto

lemma digit10_iff: "(\<exists>d. digitOf c = Some d \<and> d < 10) \<longleftrightarrow> c \<in> set ''0123456789''"
proof
  assume "\<exists>d. digitOf c = Some d \<and> d < 10"
  then have r: "48 \<le> (of_char c :: nat)" "(of_char c :: nat) \<le> 57"
    by (auto simp: digitOf_def Let_def split: if_splits)
  show "c \<in> set ''0123456789''"
  proof (rule ccontr)
    assume notin: "c \<notin> set ''0123456789''"
    have n0: "(of_char c :: nat) \<noteq> 48"
      by (rule of_char_neq[of c "CHR ''0''"]) (use notin in simp_all)
    have n1: "(of_char c :: nat) \<noteq> 49"
      by (rule of_char_neq[of c "CHR ''1''"]) (use notin in simp_all)
    have n2: "(of_char c :: nat) \<noteq> 50"
      by (rule of_char_neq[of c "CHR ''2''"]) (use notin in simp_all)
    have n3: "(of_char c :: nat) \<noteq> 51"
      by (rule of_char_neq[of c "CHR ''3''"]) (use notin in simp_all)
    have n4: "(of_char c :: nat) \<noteq> 52"
      by (rule of_char_neq[of c "CHR ''4''"]) (use notin in simp_all)
    have n5: "(of_char c :: nat) \<noteq> 53"
      by (rule of_char_neq[of c "CHR ''5''"]) (use notin in simp_all)
    have n6: "(of_char c :: nat) \<noteq> 54"
      by (rule of_char_neq[of c "CHR ''6''"]) (use notin in simp_all)
    have n7: "(of_char c :: nat) \<noteq> 55"
      by (rule of_char_neq[of c "CHR ''7''"]) (use notin in simp_all)
    have n8: "(of_char c :: nat) \<noteq> 56"
      by (rule of_char_neq[of c "CHR ''8''"]) (use notin in simp_all)
    have n9: "(of_char c :: nat) \<noteq> 57"
      by (rule of_char_neq[of c "CHR ''9''"]) (use notin in simp_all)
    from r n0 n1 n2 n3 n4 n5 n6 n7 n8 n9 show False by arith
  qed
next
  assume "c \<in> set ''0123456789''"
  then show "\<exists>d. digitOf c = Some d \<and> d < 10"
    by (auto simp: digitOf_def Let_def)
qed

lemma digit2_iff: "(\<exists>d. digitOf c = Some d \<and> d < 2) \<longleftrightarrow> c \<in> set ''01''"
proof
  assume "\<exists>d. digitOf c = Some d \<and> d < 2"
  then have r: "48 \<le> (of_char c :: nat)" "(of_char c :: nat) \<le> 49"
    by (auto simp: digitOf_def Let_def split: if_splits)
  show "c \<in> set ''01''"
  proof (rule ccontr)
    assume notin: "c \<notin> set ''01''"
    have n0: "(of_char c :: nat) \<noteq> 48"
      by (rule of_char_neq[of c "CHR ''0''"]) (use notin in simp_all)
    have n1: "(of_char c :: nat) \<noteq> 49"
      by (rule of_char_neq[of c "CHR ''1''"]) (use notin in simp_all)
    from r n0 n1 show False by arith
  qed
next
  assume "c \<in> set ''01''"
  then show "\<exists>d. digitOf c = Some d \<and> d < 2"
    by (auto simp: digitOf_def Let_def)
qed

section \<open>URL-safe base-64\<close>

lemma and_63: "x AND 63 = take_bit 6 x" for x :: nat
  by (simp add: take_bit_eq_mask mask_eq_exp_minus_1)

lemma mod_256: "x mod 256 = take_bit 8 x" for x :: nat
  by (simp add: take_bit_eq_mod)

lemma EncodeToString_sextets: "EncodeToString bs = map (\<lambda>x. encodeURL ! x) (sextets bs)"
  by (induction bs rule: sextets.induct) (simp_all add: Let_def)

lemma and_63_lt: "x AND 63 < (64::nat)"
  using take_bit_nat_less_exp[of 6 x] by (simp add: and_63)

lemma sextets_lt: "x \<in> set (sextets bs) \<Longrightarrow> x < 64"
  by (induction bs rule: sextets.induct) (auto simp: Let_def and_63_lt)

lemma join_sextets4:
  "push_bit 18 (take_bit 6 (drop_bit 18 V)) OR push_bit 12 (take_bit 6 (drop_bit 12 V))
     OR push_bit 6 (take_bit 6 (drop_bit 6 V)) OR take_bit 6 V = take_bit 24 V" for V :: nat
proof (rule bit_eqI)
  fix n :: nat
  consider "n < 6" | "6 \<le> n" "n < 12" | "12 \<le> n" "n < 18" | "18 \<le> n" "n < 24" | "24 \<le> n"
    by linarith
  then show "bit (push_bit 18 (take_bit 6 (drop_bit 18 V)) OR push_bit 12 (take_bit 6 (drop_bit 12 V))
     OR push_bit 6 (take_bit 6 (drop_bit 6 V)) OR take_bit 6 V) n \<longleftrightarrow> bit (take_bit 24 V) n"
    by cases (auto simp: bit_simps)
qed

lemma join_sextets3:
  fixes V :: nat
  defines "W \<equiv> push_bit 18 (take_bit 6 (drop_bit 18 V))
     OR push_bit 12 (take_bit 6 (drop_bit 12 V)) OR push_bit 6 (take_bit 6 (drop_bit 6 V))"
  shows "take_bit 8 (drop_bit 16 W) = take_bit 8 (drop_bit 16 V)"
    and "take_bit 8 (drop_bit 8 W) = take_bit 8 (drop_bit 8 V)"
proof -
  show "take_bit 8 (drop_bit 16 W) = take_bit 8 (drop_bit 16 V)"
  proof (rule bit_eqI)
    fix n :: nat
    consider "n < 2" | "2 \<le> n" "n < 8" | "8 \<le> n"
      by linarith
    then show "bit (take_bit 8 (drop_bit 16 W)) n \<longleftrightarrow> bit (take_bit 8 (drop_bit 16 V)) n"
      unfolding W_def by cases (auto simp: bit_simps)
  qed
  show "take_bit 8 (drop_bit 8 W) = take_bit 8 (drop_bit 8 V)"
  proof (rule bit_eqI)
    fix n :: nat
    consider "n < 4" | "4 \<le> n" "n < 8" | "8 \<le> n"
      by linarith
    then show "bit (take_bit 8 (drop_bit 8 W)) n \<longleftrightarrow> bit (take_bit 8 (drop_bit 8 V)) n"
      unfolding W_def by cases (auto simp: bit_simps)
  qed
qed

lemma join_sextets2:
  "take_bit 8 (drop_bit 16 (push_bit 18 (take_bit 6 (drop_bit 18 V))
     OR push_bit 12 (take_bit 6 (drop_bit 12 V)))) = take_bit 8 (drop_bit 16 V)" for V :: nat
proof (rule bit_eqI)
  fix n :: nat
  consider "n < 2" | "2 \<le> n" "n < 8" | "8 \<le> n"
    by linarith
  then show "bit (take_bit 8 (drop_bit 16 (push_bit 18 (take_bit 6 (drop_bit 18 V))
     OR push_bit 12 (take_bit 6 (drop_bit 12 V))))) n \<longleftrightarrow> bit (take_bit 8 (drop_bit 16 V)) n"
    by cases (auto simp: bit_simps)
qed

lemma split_bytes3:
  fixes a b c :: nat
  defines "V \<equiv> push_bit 16 (take_bit 8 a) OR push_bit 8 (take_bit 8 b) OR take_bit 8 c"
  shows "take_bit 8 (drop_bit 16 V) = take_bit 8 a" "take_bit 8 (drop_bit 8 V) = take_bit 8 b"
    "take_bit 8 V = take_bit 8 c" "take_bit 24 V = V"
proof -
  show "take_bit 8 (drop_bit 16 V) = take_bit 8 a"
    unfolding V_def by (rule bit_eqI) (auto simp: bit_simps)
  show "take_bit 8 (drop_bit 8 V) = take_bit 8 b"
    unfolding V_def by (rule bit_eqI) (auto simp: bit_simps)
  show "take_bit 8 V = take_bit 8 c"
    unfolding V_def by (rule bit_eqI) (auto simp: bit_simps)
  show "take_bit 24 V = V"
    unfolding V_def by (rule bit_eqI) (auto simp: bit_simps)
qed


lemma decodeQuanta_sextets:
  assumes "\<forall>b \<in> set bs. b < 256"
  shows "decodeQuanta (sextets bs) = Inr bs"
  using assms
proof (induction bs rule: sextets.induct)
  case (1 a b c rest)
  have t: "take_bit 8 a = a" "take_bit 8 b = b" "take_bit 8 c = c"
    using "1.prems" by (simp_all add: take_bit_nat_eq_self)
  define V where "V = push_bit 16 a OR push_bit 8 b OR c"
  have V: "V = push_bit 16 (take_bit 8 a) OR push_bit 8 (take_bit 8 b) OR take_bit 8 c"
    by (simp only: V_def t)
  note sp = split_bytes3[of a b c, folded V]
  have W: "push_bit 18 (take_bit 6 (drop_bit 18 V)) OR push_bit 12 (take_bit 6 (drop_bit 12 V))
     OR push_bit 6 (take_bit 6 (drop_bit 6 V)) OR take_bit 6 V = V"
    by (simp only: join_sextets4 sp(4))
  have ih: "decodeQuanta (sextets rest) = Inr rest" using "1.prems" by (intro "1.IH") simp_all
  have "sextets (a # b # c # rest)
        = take_bit 6 (drop_bit 18 V) # take_bit 6 (drop_bit 12 V) # take_bit 6 (drop_bit 6 V)
          # take_bit 6 V # sextets rest"
    by (simp only: sextets.simps Let_def and_63 V_def append_Cons append_Nil numeral_eq_iff
          refl arith_simps) 
  then show ?case
    by (simp only: decodeQuanta.simps Let_def W ih mod_256 sp(1,2,3) t sum.case)
next
  case (2 a b)
  have t: "take_bit 8 a = a" "take_bit 8 b = b"
    using "2.prems" by (simp_all add: take_bit_nat_eq_self)
  define V where "V = push_bit 16 a OR push_bit 8 b"
  have V: "V = push_bit 16 (take_bit 8 a) OR push_bit 8 (take_bit 8 b) OR take_bit 8 0"
    by (simp add: V_def t)
  note sp = split_bytes3[of a b 0, folded V]
  note j = join_sextets3[of V]
  have "sextets [a, b]
        = [take_bit 6 (drop_bit 18 V), take_bit 6 (drop_bit 12 V), take_bit 6 (drop_bit 6 V)]"
    by (simp only: sextets.simps Let_def and_63 V_def arith_simps)
  then show ?case
    by (simp only: decodeQuanta.simps Let_def mod_256 j sp(1,2) t)
next
  case (3 a)
  have t: "take_bit 8 a = a"
    using "3.prems" by (simp_all add: take_bit_nat_eq_self)
  define V where "V = push_bit 16 a"
  have V: "V = push_bit 16 (take_bit 8 a) OR push_bit 8 (take_bit 8 0) OR take_bit 8 0"
    by (simp add: V_def t)
  note sp = split_bytes3[of a 0 0, folded V]
  note j = join_sextets2[of V]
  have "sextets [a] = [take_bit 6 (drop_bit 18 V), take_bit 6 (drop_bit 12 V)]"
    by (simp only: sextets.simps Let_def and_63 V_def arith_simps)
  then show ?case
    by (simp only: decodeQuanta.simps Let_def mod_256 j sp(1) t)
next
  case 4
  then show ?case by simp
qed

lemma distinct_URL: "distinct encodeURL"
  by (simp add: encodeURL_def)

lemma length_URL: "length encodeURL = 64"
  by (simp add: encodeURL_def)

lemma decodeURLMap_nth: "x < 64 \<Longrightarrow> decodeURLMap (encodeURL ! x) = x"
  unfolding decodeURLMap_def by (rule initDecodeMap_nth[OF distinct_URL]) (simp add: length_URL)

lemma decodeChars_encoded:
  assumes "\<forall>x \<in> set xs. x < 64"
  shows "decodeChars (map (\<lambda>x. encodeURL ! x) xs) = Inr xs"
  using assms
proof (induction xs)
  case Nil
  then show ?case by simp
next
  case (Cons x xs)
  have x: "x < 64" using Cons.prems by simp
  have "decodeURLMap (encodeURL ! x) = x" by (rule decodeURLMap_nth[OF x])
  moreover have "x \<noteq> 0xFF" using x by simp
  moreover have "decodeChars (map (\<lambda>x. encodeURL ! x) xs) = Inr xs"
    using Cons.prems by (intro Cons.IH) simp
  ultimately show ?case by simp
qed

lemma DecodeString_EncodeToString:
  assumes "\<forall>b \<in> set bs. b < 256"
  shows "DecodeString (EncodeToString bs) = Inr bs"
proof -
  have "decodeChars (EncodeToString bs) = Inr (sextets bs)"
    unfolding EncodeToString_sextets by (rule decodeChars_encoded) (simp add: sextets_lt)
  then show ?thesis
    by (simp add: DecodeString_def decodeQuanta_sextets[OF assms])
qed

lemma PutUint64_bytes: "\<forall>b \<in> set (PutUint64 v). b < 256" "length (PutUint64 v) = 8"
  by (simp_all add: PutUint64_def)

lemma Uint64_PutUint64: "Uint64 (PutUint64 v) = take_bit 64 v"
proof -
  have "take_bit 8 v OR push_bit 8 (take_bit 8 (drop_bit 8 v))
      OR push_bit 16 (take_bit 8 (drop_bit 16 v)) OR push_bit 24 (take_bit 8 (drop_bit 24 v))
      OR push_bit 32 (take_bit 8 (drop_bit 32 v)) OR push_bit 40 (take_bit 8 (drop_bit 40 v))
      OR push_bit 48 (take_bit 8 (drop_bit 48 v)) OR push_bit 56 (take_bit 8 (drop_bit 56 v))
      = take_bit 64 v"
  proof (rule bit_eqI)
    fix n :: nat
    consider "n < 8" | "8 \<le> n" "n < 16" | "16 \<le> n" "n < 24" | "24 \<le> n" "n < 32"
      | "32 \<le> n" "n < 40" | "40 \<le> n" "n < 48" | "48 \<le> n" "n < 56" | "56 \<le> n" "n < 64"
      | "64 \<le> n"
      by linarith
    then show "bit (take_bit 8 v OR push_bit 8 (take_bit 8 (drop_bit 8 v))
      OR push_bit 16 (take_bit 8 (drop_bit 16 v)) OR push_bit 24 (take_bit 8 (drop_bit 24 v))
      OR push_bit 32 (take_bit 8 (drop_bit 32 v)) OR push_bit 40 (take_bit 8 (drop_bit 40 v))
      OR push_bit 48 (take_bit 8 (drop_bit 48 v)) OR push_bit 56 (take_bit 8 (drop_bit 56 v))) n
      \<longleftrightarrow> bit (take_bit 64 v) n"
      by cases (auto simp: bit_simps)
  qed
  then show ?thesis
    by (simp only: PutUint64_def Uint64.simps mod_256)
qed

lemma ParseBase64_encoded:
  assumes "u < 2 ^ 64"
  shows "ParseBase64 (EncodeToString (PutUint64 u))
         = (if u > MaxInt64 then Inl ErrBase64Overflow else Inr (int u))"
proof -
  have "Uint64 (PutUint64 u) = u"
    using assms by (simp add: Uint64_PutUint64 take_bit_nat_eq_self)
  then show ?thesis
    by (simp add: ParseBase64_def DecodeString_EncodeToString[OF PutUint64_bytes(1)]
        PutUint64_bytes(2) Let_def)
qed

lemma ParseBase64_Base64:
  assumes "0 \<le> v" "v < 2 ^ 63"
  shows "ParseBase64 (Base64 v) = Inr v"
proof -
  have u: "uint64_of v = nat v" using assms by (simp add: uint64_of_def)
  have "nat v < 2 ^ 64" "\<not> nat v > MaxInt64"
    using assms by (simp_all add: nat_less_iff MaxInt64_def nat_le_iff)
  with ParseBase64_encoded[of "nat v"] show ?thesis
    using assms(1) by (simp add: Base64_def u)
qed

lemma length_sextets: "length (sextets bs) = (length bs * 4 + 2) div 3"
  by (induction bs rule: sextets.induct) (simp_all add: Let_def)

lemma length_Base64: "length (Base64 v) = 11"
  by (simp add: Base64_def EncodeToString_sextets length_sextets PutUint64_bytes(2))

section \<open>Round trips\<close>

text \<open>
  C2: for each of the five codecs and every value \<open>v\<close> with 0 \<le> v < 2^63 - 1,
  decoding the encoding of \<open>v\<close> returns \<open>v\<close> without error. The base-32 and base-58
  encoders return a string (they do not panic on the buffer) and its decoding is \<open>v\<close>.
\<close>

theorem C2_codec_roundtrip:
  assumes "0 \<le> v" "v < 2 ^ 63 - 1"
  shows "ParseString (String v) = Inr v
       \<and> ParseBase2 (Base2 v) = Inr v
       \<and> (\<exists>s. Base32 v = Some s \<and> ParseBase32 s = Inr v)
       \<and> (\<exists>s. Base58 v = Some s \<and> ParseBase58 s = Inr v)
       \<and> ParseBase64 (Base64 v) = Inr v"
proof -
  have r: "0 \<le> v" "v < 2 ^ 63" using assms by simp_all
  have n: "nat v < 2 ^ 64" using r by (simp add: nat_less_iff)
  have l32: "0 + length (digitsOrZero 32 (nat v)) \<le> 13"
    using digitsOrZero_props(4)[of 32 "nat v" 13] n by simp
  have l58: "0 + length (digitsOrZero 58 (nat v)) \<le> 11"
    using digitsOrZero_props(4)[of 58 "nat v" 11] n by simp
  have b32: "\<exists>s. Base32 v = Some s \<and> ParseBase32 s = Inr v"
    using Base32_digits[OF r] ParseBase32_padded[OF r l32] by simp
  have b58: "\<exists>s. Base58 v = Some s \<and> ParseBase58 s = Inr v"
    using Base58_digits[OF r] ParseBase58_padded[OF r l58] by simp
  show ?thesis
    using ParseString_String[OF r] ParseBase2_Base2[OF r] b32 b58 ParseBase64_Base64[OF r]
    by blast
qed

theorem C2_codec_roundtrip_witness:
  "(0::int) \<le> 12345 \<and> (12345::int) < 2 ^ 63 - 1
   \<and> ParseString (String 12345) = Inr 12345
   \<and> ParseBase2 (Base2 12345) = Inr 12345
   \<and> (\<exists>s. Base32 12345 = Some s \<and> ParseBase32 s = Inr 12345)
   \<and> (\<exists>s. Base58 12345 = Some s \<and> ParseBase58 s = Inr 12345)
   \<and> ParseBase64 (Base64 12345) = Inr 12345"
proof -
  have h: "(0::int) \<le> 12345" "(12345::int) < 2 ^ 63 - 1" by simp_all
  from C2_codec_roundtrip[OF h] h show ?thesis by blast
qed

section \<open>What the decoders reject\<close>

subsection \<open>Base-32 and base-58\<close>

lemma decodeLoop_Inl: "decodeLoop dmap base err s val = Inl e \<Longrightarrow> e = err"
  by (induction s arbitrary: val) (auto simp: Let_def split: if_splits)

lemma decodeLoop_table_Inr:
  assumes "decodeLoop (initDecodeMap emap) base err s 0 = Inr x"
    "distinct emap" "length emap \<le> 0xFF" "0 < base" "s \<noteq> []"
  shows "set s \<subseteq> set emap" "x = valueOf base (map (initDecodeMap emap) s)" "x \<le> MaxUint64"
proof -
  have le: "\<forall>c. initDecodeMap emap c \<le> 0xFF"
    using initDecodeMap_le[OF assms(2,3)] by simp
  note r = decodeLoop_Inr[OF assms(1,4) le]
  show "set s \<subseteq> set emap"
    using r initDecodeMap_FF_iff[OF assms(2,3)] by auto
  show "x = valueOf base (map (initDecodeMap emap) s)"
    using r by (simp add: valueOf_def foldl_map)
  show "x \<le> MaxUint64" using r assms(5) by simp
qed

lemma ParseBase32_Inr:
  assumes "ParseBase32 s = Inr v"
  shows "s \<noteq> []" "length s \<le> 13" "set s \<subseteq> set encodeBase32Map"
    "v = int (valueOf 32 (map decodeBase32Map s))" "0 \<le> v" "v < 2 ^ 63"
proof -
  from assms show ne: "s \<noteq> []" and "length s \<le> 13"
    by (auto simp: ParseBase32_def split: if_splits)
  from assms obtain x where d: "decodeLoop decodeBase32Map 32 ErrInvalidBase32 s 0 = Inr x"
    and x: "\<not> x > MaxInt64" "v = int x"
    by (auto simp: ParseBase32_def split: if_splits sum.splits)
  note r = decodeLoop_table_Inr[OF d[unfolded decodeBase32Map_def] distinct_base32 _ _ ne,
      simplified length_base32, simplified]
  show "set s \<subseteq> set encodeBase32Map" using r(1) .
  show "v = int (valueOf 32 (map decodeBase32Map s))" using r(2) x(2) by (simp add: decodeBase32Map_def)
  show "0 \<le> v" using x(2) by simp
  show "v < 2 ^ 63" using x by (simp add: MaxInt64_def)
qed

lemma ParseBase32_Inl: "ParseBase32 s = Inl e \<Longrightarrow> e = ErrInvalidBase32"
  by (auto simp: ParseBase32_def split: if_splits sum.splits dest: decodeLoop_Inl)

lemma ParseBase58_Inr:
  assumes "ParseBase58 s = Inr v"
  shows "s \<noteq> []" "length s \<le> 11" "set s \<subseteq> set encodeBase58Map"
    "v = int (valueOf 58 (map decodeBase58Map s))" "0 \<le> v" "v < 2 ^ 63"
proof -
  from assms show ne: "s \<noteq> []" and "length s \<le> 11"
    by (auto simp: ParseBase58_def split: if_splits)
  from assms obtain x where d: "decodeLoop decodeBase58Map 58 ErrInvalidBase58 s 0 = Inr x"
    and x: "\<not> x > MaxInt64" "v = int x"
    by (auto simp: ParseBase58_def split: if_splits sum.splits)
  note r = decodeLoop_table_Inr[OF d[unfolded decodeBase58Map_def] distinct_base58 _ _ ne,
      simplified length_base58, simplified]
  show "set s \<subseteq> set encodeBase58Map" using r(1) .
  show "v = int (valueOf 58 (map decodeBase58Map s))" using r(2) x(2) by (simp add: decodeBase58Map_def)
  show "0 \<le> v" using x(2) by simp
  show "v < 2 ^ 63" using x by (simp add: MaxInt64_def)
qed

lemma ParseBase58_Inl: "ParseBase58 s = Inl e \<Longrightarrow> e = ErrInvalidBase58"
  by (auto simp: ParseBase58_def split: if_splits sum.splits dest: decodeLoop_Inl)

lemma ParseBase32_rejects:
  assumes "s = [] \<or> length s > 13 \<or> (\<exists>c \<in> set s. c \<notin> set encodeBase32Map)
           \<or> 2 ^ 63 \<le> valueOf 32 (map decodeBase32Map s)"
  shows "ParseBase32 s = Inl ErrInvalidBase32"
proof (cases "ParseBase32 s")
  case (Inl e)
  then show ?thesis using ParseBase32_Inl by simp
next
  case (Inr v)
  from ParseBase32_Inr[OF Inr] assms show ?thesis by auto
qed

lemma ParseBase58_rejects:
  assumes "s = [] \<or> length s > 11 \<or> (\<exists>c \<in> set s. c \<notin> set encodeBase58Map)
           \<or> 2 ^ 63 \<le> valueOf 58 (map decodeBase58Map s)"
  shows "ParseBase58 s = Inl ErrInvalidBase58"
proof (cases "ParseBase58 s")
  case (Inl e)
  then show ?thesis using ParseBase58_Inl by simp
next
  case (Inr v)
  from ParseBase58_Inr[OF Inr] assms show ?thesis by auto
qed

subsection \<open>Base-64\<close>

lemma newline_not_URL: "CHR 0x0A \<notin> set encodeURL" "CHR 0x0D \<notin> set encodeURL"
  by (simp_all add: encodeURL_def)

lemma decodeURLMap_FF_iff: "decodeURLMap c = 0xFF \<longleftrightarrow> c \<notin> set encodeURL"
  unfolding decodeURLMap_def
  by (rule initDecodeMap_FF_iff[OF distinct_URL]) (simp add: length_URL)

lemma decodeChars_Inr:
  assumes "decodeChars s = Inr vs"
  shows "set (significant s) \<subseteq> set encodeURL \<and> length vs = length (significant s)"
  using assms
proof (induction s arbitrary: vs)
  case Nil
  then show ?case by (simp add: significant_def)
next
  case (Cons c cs)
  show ?case
  proof (cases "decodeURLMap c \<noteq> 0xFF")
    case True
    then have in_a: "c \<in> set encodeURL" using decodeURLMap_FF_iff by simp
    then have nn: "c \<noteq> CHR 0x0A" "c \<noteq> CHR 0x0D" using newline_not_URL by auto
    from Cons.prems True obtain ws where w: "decodeChars cs = Inr ws" "vs = decodeURLMap c # ws"
      by (auto split: sum.splits)
    from Cons.IH[OF w(1)] show ?thesis using in_a nn w(2) by (simp add: significant_def)
  next
    case False
    with Cons.prems have nl: "c = CHR 0x0A \<or> c = CHR 0x0D" and r: "decodeChars cs = Inr vs"
      by (auto split: if_splits)
    from Cons.IH[OF r] nl show ?thesis by (auto simp: significant_def)
  qed
qed

lemma decodeQuanta_length:
  "decodeQuanta vs = Inr bs \<Longrightarrow> length bs = (length vs * 3) div 4 \<and> length vs mod 4 \<noteq> 1"
proof (induction vs arbitrary: bs rule: decodeQuanta.induct)
  case (1 a b c d rest)
  from "1.prems" obtain bs' where r: "decodeQuanta rest = Inr bs'"
    and b: "length bs = 3 + length bs'"
    by (auto simp: Let_def split: sum.splits)
  from "1.IH"[OF refl r] b show ?case by (simp add: Let_def)
next
  case (2 a b c)
  then show ?case by (auto simp: Let_def)
next
  case (3 a b)
  then show ?case by (auto simp: Let_def)
next
  case (4 a)
  then show ?case by simp
next
  case 5
  then show ?case by simp
qed

lemma ParseBase64_Inr:
  assumes "ParseBase64 s = Inr v"
  shows "set (significant s) \<subseteq> set encodeURL" "length (significant s) = 11" "0 \<le> v" "v < 2 ^ 63"
proof -
  from assms obtain vs bs where c: "decodeChars s = Inr vs" and q: "decodeQuanta vs = Inr bs"
    and l: "length bs = 8" and v: "\<not> Uint64 bs > MaxInt64" "v = int (Uint64 bs)"
    by (auto simp: ParseBase64_def DecodeString_def Let_def split: sum.splits if_splits)
  note dc = decodeChars_Inr[OF c]
  show "set (significant s) \<subseteq> set encodeURL" using dc by simp
  from decodeQuanta_length[OF q] l have "length vs = 11" by presburger
  then show "length (significant s) = 11" using dc by simp
  show "0 \<le> v" using v(2) by simp
  show "v < 2 ^ 63" using v by (simp add: MaxInt64_def)
qed

lemma ParseBase64_rejects:
  assumes "(\<exists>c \<in> set (significant s). c \<notin> set encodeURL) \<or> length (significant s) \<noteq> 11"
  shows "\<exists>e. ParseBase64 s = Inl e"
proof (cases "ParseBase64 s")
  case (Inl e)
  then show ?thesis by simp
next
  case (Inr v)
  from ParseBase64_Inr(1,2)[OF Inr] assms show ?thesis by auto
qed

subsection \<open>Decimal and binary\<close>

lemma ParseInt_Inr:
  assumes "ParseInt s base = Inr v" "0 < base"
  shows "signBody s \<noteq> []"
    and "\<forall>c \<in> set (signBody s). \<exists>d. digitOf c = Some d \<and> d < base"
    and "s \<noteq> [] \<and> hd s = CHR ''-'' \<or> (0 \<le> v \<and> v < 2 ^ 63
           \<and> v = int (valueOf base (digitValues (signBody s))))"
proof -
  from assms(1) have ne: "s \<noteq> []" by (auto simp: ParseInt_def split: if_splits)
  have sb: "signBody s = (if hd s = CHR ''+'' \<or> hd s = CHR ''-'' then tl s else s)"
    using ne by (simp add: signBody_def)
  from assms(1) ne obtain un where u: "ParseUint (signBody s) base = Inr un"
    and v: "\<not> (\<not> hd s = CHR ''-'' \<and> un \<ge> 2 ^ 63)"
       "v = (if hd s = CHR ''-'' then - int un else int un)"
    unfolding ParseInt_def sb[symmetric] Let_def
    by (auto split: sum.splits if_splits)
  from u have b: "signBody s \<noteq> []" and l: "ParseUint_loop base (signBody s) 0 = Inr un"
    by (auto simp: ParseUint_def split: if_splits)
  note r = ParseUint_loop_Inr[OF l assms(2), simplified]
  show "signBody s \<noteq> []" using b .
  show "\<forall>c \<in> set (signBody s). \<exists>d. digitOf c = Some d \<and> d < base" using r by simp
  have "un = valueOf base (digitValues (signBody s))"
    using r by (simp add: valueOf_def digitValues_def foldl_map)
  then show "s \<noteq> [] \<and> hd s = CHR ''-'' \<or> (0 \<le> v \<and> v < 2 ^ 63
           \<and> v = int (valueOf base (digitValues (signBody s))))"
    using v ne by (cases "hd s = CHR ''-''") auto
qed

lemma ParseInt_rejects:
  assumes "0 < base"
    and "signBody s = [] \<or> (\<exists>c \<in> set (signBody s). \<not> (\<exists>d. digitOf c = Some d \<and> d < base))
         \<or> ((s \<noteq> [] \<longrightarrow> hd s \<noteq> CHR ''-'') \<and> 2 ^ 63 \<le> valueOf base (digitValues (signBody s)))"
  shows "\<exists>e. ParseInt s base = Inl e"
proof (cases "ParseInt s base")
  case (Inl e)
  then show ?thesis by simp
next
  case (Inr v)
  from ParseInt_Inr[OF Inr assms(1)] assms(2) show ?thesis by auto
qed

subsection \<open>Accepted and rejected strings\<close>

lemma decodeURLMap_A: "decodeURLMap (CHR ''A'') = 0"
  using decodeURLMap_nth[of 0] by (simp add: encodeURL_def)

lemma decodeURLMap_newline: "decodeURLMap (CHR 0x0A) = 0xFF"
  using decodeURLMap_FF_iff[of "CHR 0x0A"] newline_not_URL by simp

text \<open>
  C8 as stated fails. The decimal and the binary decoder hand the string to
  \<open>strconv.ParseInt\<close>, which takes a leading sign: \<open>"+1"\<close> decodes to 1 and
  \<open>"-1"\<close> to -1, a value that is not a non-negative 63-bit integer. The base-64
  decoder of the standard library skips line feeds and carriage returns, so a string
  with a byte outside the alphabet is accepted.
\<close>

theorem C8_counterexample:
  "ParseString ''-1'' = Inr (- 1)
   \<and> ParseString ''+1'' = Inr 1
   \<and> ParseBase2 ''-1'' = Inr (- 1)
   \<and> ParseBase2 ''+1'' = Inr 1
   \<and> CHR ''-'' \<notin> set ''0123456789'' \<and> CHR ''+'' \<notin> set ''0123456789''
   \<and> ParseBase64 (''AAAAAAAAAAA'' @ [CHR 0x0A]) = Inr 0
   \<and> CHR 0x0A \<notin> set encodeURL"
proof -
  have d: "ParseString ''-1'' = Inr (- 1)" "ParseString ''+1'' = Inr 1"
    "ParseBase2 ''-1'' = Inr (- 1)" "ParseBase2 ''+1'' = Inr 1"
    by (simp_all add: ParseString_def ParseBase2_def ParseInt_def ParseUint_def digitOf_def
        MaxUint64_def Let_def)
  have b: "ParseBase64 (''AAAAAAAAAAA'' @ [CHR 0x0A]) = Inr 0"
    by (simp add: ParseBase64_def DecodeString_def decodeURLMap_A decodeURLMap_newline
        MaxInt64_def Let_def)
  show ?thesis using d b newline_not_URL(1) by simp
qed

text \<open>
  C8, amended. Base-32 and base-58: the empty string, a string longer than 13 (11)
  characters, a string with a character outside the alphabet and a string whose digits
  denote 2^63 or more are rejected with the codec's sentinel error. Base-64: a string
  with a character outside the alphabet other than line feed and carriage return, and a
  string whose other characters are not exactly 11, is rejected, and so is the encoding
  of every value from 2^63 up. Decimal and binary: a string that, after an optional
  leading sign, is empty or has a character that is not a digit of the base is
  rejected, and so is a string without a leading minus sign whose digits denote 2^63 or
  more. The base-32, base-58 and base-64 decoders never return a value outside
  [0, 2^63). Nothing is said of what the decimal and binary decoders do with a minus
  sign followed by digits.
\<close>

theorem C8_decoders_reject:
  "(s = [] \<or> length s > 13 \<or> (\<exists>c \<in> set s. c \<notin> set encodeBase32Map)
      \<or> 2 ^ 63 \<le> valueOf 32 (map decodeBase32Map s)
    \<longrightarrow> ParseBase32 s = Inl ErrInvalidBase32)
   \<and> (s = [] \<or> length s > 11 \<or> (\<exists>c \<in> set s. c \<notin> set encodeBase58Map)
      \<or> 2 ^ 63 \<le> valueOf 58 (map decodeBase58Map s)
    \<longrightarrow> ParseBase58 s = Inl ErrInvalidBase58)
   \<and> ((\<exists>c \<in> set (significant s). c \<notin> set encodeURL) \<or> length (significant s) \<noteq> 11
    \<longrightarrow> (\<exists>e. ParseBase64 s = Inl e))
   \<and> (2 ^ 63 \<le> u \<and> u < 2 ^ 64
    \<longrightarrow> ParseBase64 (EncodeToString (PutUint64 u)) = Inl ErrBase64Overflow)
   \<and> (signBody s = [] \<or> (\<exists>c \<in> set (signBody s). c \<notin> set ''0123456789'')
      \<or> ((s \<noteq> [] \<longrightarrow> hd s \<noteq> CHR ''-'') \<and> 2 ^ 63 \<le> valueOf 10 (digitValues (signBody s)))
    \<longrightarrow> (\<exists>e. ParseString s = Inl e))
   \<and> (signBody s = [] \<or> (\<exists>c \<in> set (signBody s). c \<notin> set ''01'')
      \<or> ((s \<noteq> [] \<longrightarrow> hd s \<noteq> CHR ''-'') \<and> 2 ^ 63 \<le> valueOf 2 (digitValues (signBody s)))
    \<longrightarrow> (\<exists>e. ParseBase2 s = Inl e))
   \<and> (ParseBase32 s = Inr v \<or> ParseBase58 s = Inr v \<or> ParseBase64 s = Inr v
    \<longrightarrow> 0 \<le> v \<and> v < 2 ^ 63)"
proof -
  have a32: "ParseBase32 s = Inl ErrInvalidBase32"
    if "s = [] \<or> length s > 13 \<or> (\<exists>c \<in> set s. c \<notin> set encodeBase32Map)
      \<or> 2 ^ 63 \<le> valueOf 32 (map decodeBase32Map s)"
    using that by (rule ParseBase32_rejects)
  have a58: "ParseBase58 s = Inl ErrInvalidBase58"
    if "s = [] \<or> length s > 11 \<or> (\<exists>c \<in> set s. c \<notin> set encodeBase58Map)
      \<or> 2 ^ 63 \<le> valueOf 58 (map decodeBase58Map s)"
    using that by (rule ParseBase58_rejects)
  have a64: "\<exists>e. ParseBase64 s = Inl e"
    if "(\<exists>c \<in> set (significant s). c \<notin> set encodeURL) \<or> length (significant s) \<noteq> 11"
    using that by (rule ParseBase64_rejects)
  have o64: "ParseBase64 (EncodeToString (PutUint64 u)) = Inl ErrBase64Overflow"
    if "2 ^ 63 \<le> u \<and> u < 2 ^ 64"
    using that ParseBase64_encoded[of u] by (simp add: MaxInt64_def)
  have d10: "\<exists>e. ParseString s = Inl e"
    if h: "signBody s = [] \<or> (\<exists>c \<in> set (signBody s). c \<notin> set ''0123456789'')
      \<or> ((s \<noteq> [] \<longrightarrow> hd s \<noteq> CHR ''-'') \<and> 2 ^ 63 \<le> valueOf 10 (digitValues (signBody s)))"
  proof -
    from h have "signBody s = [] \<or> (\<exists>c \<in> set (signBody s). \<not> (\<exists>d. digitOf c = Some d \<and> d < 10))
      \<or> ((s \<noteq> [] \<longrightarrow> hd s \<noteq> CHR ''-'') \<and> 2 ^ 63 \<le> valueOf 10 (digitValues (signBody s)))"
      unfolding digit10_iff .
    from ParseInt_rejects[OF _ this] show ?thesis
      by (auto simp: ParseString_def)
  qed
  have d2: "\<exists>e. ParseBase2 s = Inl e"
    if h: "signBody s = [] \<or> (\<exists>c \<in> set (signBody s). c \<notin> set ''01'')
      \<or> ((s \<noteq> [] \<longrightarrow> hd s \<noteq> CHR ''-'') \<and> 2 ^ 63 \<le> valueOf 2 (digitValues (signBody s)))"
  proof -
    from h have "signBody s = [] \<or> (\<exists>c \<in> set (signBody s). \<not> (\<exists>d. digitOf c = Some d \<and> d < 2))
      \<or> ((s \<noteq> [] \<longrightarrow> hd s \<noteq> CHR ''-'') \<and> 2 ^ 63 \<le> valueOf 2 (digitValues (signBody s)))"
      unfolding digit2_iff .
    from ParseInt_rejects[OF _ this] show ?thesis
      by (auto simp: ParseBase2_def)
  qed
  have rg: "0 \<le> v \<and> v < 2 ^ 63"
    if "ParseBase32 s = Inr v \<or> ParseBase58 s = Inr v \<or> ParseBase64 s = Inr v"
    using that ParseBase32_Inr(5,6)[of s v] ParseBase58_Inr(5,6)[of s v] ParseBase64_Inr(3,4)[of s v]
    by blast
  show ?thesis
    by (rule conjI[OF impI[OF a32] conjI[OF impI[OF a58] conjI[OF impI[OF a64]
          conjI[OF impI[OF o64] conjI[OF impI[OF d10] conjI[OF impI[OF d2] impI[OF rg]]]]]]])
qed


theorem C8_decoders_reject_witness:
  "ParseBase32 ''!@#'' = Inl ErrInvalidBase32
   \<and> ParseBase58 ''ZZZZZZZZZZZZ'' = Inl ErrInvalidBase58
   \<and> (\<exists>e. ParseBase64 ''short'' = Inl e)
   \<and> ParseBase64 (EncodeToString (PutUint64 (2 ^ 63))) = Inl ErrBase64Overflow
   \<and> (\<exists>e. ParseString ''12a'' = Inl e)
   \<and> (\<exists>e. ParseString ''9223372036854775808'' = Inl e)
   \<and> (\<exists>e. ParseBase2 ''102'' = Inl e)
   \<and> ParseBase32 ''yb'' = Inr 1 \<and> (0::int) \<le> 1 \<and> (1::int) < 2 ^ 63"
proof -
  have w1: "ParseBase32 ''!@#'' = Inl ErrInvalidBase32"
    using C8_decoders_reject[where s = "''!@#''" and u = 0 and v = 0, THEN conjunct1]
    by (simp add: encodeBase32Map_def)
  have w2: "ParseBase58 ''ZZZZZZZZZZZZ'' = Inl ErrInvalidBase58"
    using C8_decoders_reject[where s = "''ZZZZZZZZZZZZ''" and u = 0 and v = 0,
        THEN conjunct2, THEN conjunct1]
    by simp
  have w3: "\<exists>e. ParseBase64 ''short'' = Inl e"
    using C8_decoders_reject[where s = "''short''" and u = 0 and v = 0,
        THEN conjunct2, THEN conjunct2, THEN conjunct1]
    by (simp add: significant_def)
  have w4: "ParseBase64 (EncodeToString (PutUint64 (2 ^ 63))) = Inl ErrBase64Overflow"
    using C8_decoders_reject[where s = "[]" and u = "2 ^ 63" and v = 0,
        THEN conjunct2, THEN conjunct2, THEN conjunct2, THEN conjunct1]
    by simp
  have w5: "\<exists>e. ParseString ''12a'' = Inl e"
    using C8_decoders_reject[where s = "''12a''" and u = 0 and v = 0,
        THEN conjunct2, THEN conjunct2, THEN conjunct2, THEN conjunct2, THEN conjunct1]
    by (simp add: signBody_def)
  have w6: "\<exists>e. ParseString ''9223372036854775808'' = Inl e"
    using C8_decoders_reject[where s = "''9223372036854775808''" and u = 0 and v = 0,
        THEN conjunct2, THEN conjunct2, THEN conjunct2, THEN conjunct2, THEN conjunct1]
    by (simp add: signBody_def digitValues_def digitOf_def valueOf_def Let_def)
  have w7: "\<exists>e. ParseBase2 ''102'' = Inl e"
    using C8_decoders_reject[where s = "''102''" and u = 0 and v = 0,
        THEN conjunct2, THEN conjunct2, THEN conjunct2, THEN conjunct2, THEN conjunct2,
        THEN conjunct1]
    by (simp add: signBody_def)
  have w8: "(0::int) \<le> 1 \<and> (1::int) < 2 ^ 63"
    using C8_decoders_reject[where s = "''yb''" and u = 0 and v = 1,
        THEN conjunct2, THEN conjunct2, THEN conjunct2, THEN conjunct2, THEN conjunct2,
        THEN conjunct2] noncanonical_examples(2)
    by blast
  show ?thesis
    using w1 w2 w3 w4 w5 w6 w7 w8 noncanonical_examples(2) by blast
qed

end
